theory Spec2Isabelle
  imports Main "HOL-Library.Stream"
begin

section \<open>The snake engine of \<open>src/main.py\<close>\<close>

text \<open>
  The engine is the class \<open>Map\<close> together with the function \<open>move_point\<close>.  Cell values and
  directions are the module's integer constants; Python integers are unbounded, so they are
  \<^typ>\<open>int\<close>.  Points are pairs of integers.
\<close>

subsection \<open>Constants, points and errors\<close>

definition EMPTY :: int where "EMPTY = 0"
definition NORTH :: int where "NORTH = 1"
definition EAST :: int where "EAST = 2"
definition SOUTH :: int where "SOUTH = 3"
definition WEST :: int where "WEST = 4"
definition NO_DIRECTION :: int where "NO_DIRECTION = 5"
definition FOOD :: int where "FOOD = 6"

type_synonym point = "int \<times> int"

text \<open>
  The exceptions the engine can raise.  \<open>IndexError_point p\<close> is \<open>IndexError(point)\<close> of
  \<open>_check_point\<close>; \<open>IndexError_list\<close> is the list's own ``index out of range''; \<open>ValueError_direction d\<close>
  is the \<open>ValueError\<close> of \<open>move_point\<close>; \<open>ValueError_randint\<close> is the \<open>ValueError\<close> that
  \<open>random.randint(a, b)\<close> raises on an empty range; \<open>OverflowError\<close> is raised by the
  division \<open>width / 2\<close> of \<open>__init__\<close> when the quotient is too large for a float.
\<close>

datatype error =
    IndexError_point point
  | IndexError_list
  | ValueError_direction int
  | ValueError_randint
  | OverflowError

definition move_point :: "point \<Rightarrow> int \<Rightarrow> error + point" where
  "move_point point direction =
     (case point of (x, y) \<Rightarrow>
        if direction = NORTH then Inr (x, y - 1)
        else if direction = EAST then Inr (x + 1, y)
        else if direction = SOUTH then Inr (x, y + 1)
        else if direction = WEST then Inr (x - 1, y)
        else if direction = NO_DIRECTION then Inr point
        else Inl (ValueError_direction direction))"

subsection \<open>The state of a \<open>Map\<close>\<close>

text \<open>
  The fields of the object; \<open>length_m\<close> is the field \<open>length\<close>.  The grid is the flat list
  \<open>self.grid\<close>, read and written at index \<open>y * width + x\<close>.
\<close>

record snake_map =
  width :: int
  height :: int
  grid :: "int list"
  head :: point
  tail :: point
  length_m :: int

text \<open>
  Python list indexing.  An index below \<open>-len\<close> or from \<open>len\<close> on raises; a negative index
  that is left counts from the end of the list.
\<close>

definition norm_index :: "nat \<Rightarrow> int \<Rightarrow> nat option" where
  "norm_index len i =
     (if i < - int len \<or> int len \<le> i then None
      else if i < 0 then Some (nat (int len + i))
      else Some (nat i))"

definition list_get :: "int list \<Rightarrow> int \<Rightarrow> error + int" where
  "list_get xs i =
     (case norm_index (length xs) i of
        None \<Rightarrow> Inl IndexError_list
      | Some j \<Rightarrow> Inr (xs ! j))"

definition list_set :: "int list \<Rightarrow> int \<Rightarrow> int \<Rightarrow> error + int list" where
  "list_set xs i v =
     (case norm_index (length xs) i of
        None \<Rightarrow> Inl IndexError_list
      | Some j \<Rightarrow> Inr (xs[j := v]))"

definition check_point :: "snake_map \<Rightarrow> point \<Rightarrow> error + unit" where
  "check_point m point =
     (case point of (x, y) \<Rightarrow>
        if x < 0 \<or> x \<ge> width m then Inl (IndexError_point point)
        else if y < 0 \<or> y \<ge> height m then Inl (IndexError_point point)
        else Inr ())"

definition getitem :: "snake_map \<Rightarrow> point \<Rightarrow> error + int" where
  "getitem m point =
     (case point of (x, y) \<Rightarrow>
        case check_point m point of
          Inl e \<Rightarrow> Inl e
        | Inr _ \<Rightarrow> list_get (grid m) ((y * width m) + x))"

definition setitem :: "snake_map \<Rightarrow> point \<Rightarrow> int \<Rightarrow> error + snake_map" where
  "setitem m point v =
     (case point of (x, y) \<Rightarrow>
        case check_point m point of
          Inl e \<Rightarrow> Inl e
        | Inr _ \<Rightarrow>
            (case list_set (grid m) ((y * width m) + x) v of
               Inl e \<Rightarrow> Inl e
             | Inr g \<Rightarrow> Inr (m\<lparr>grid := g\<rparr>)))"

text \<open>
  \<open>check_collision\<close> catches the \<open>IndexError\<close> of \<open>_check_point\<close> only; the reads of the
  grid that follow are outside the \<open>try\<close>.
\<close>

definition check_collision :: "snake_map \<Rightarrow> point \<Rightarrow> error + bool" where
  "check_collision m point =
     (case check_point m point of
        Inl _ \<Rightarrow> Inr True
      | Inr _ \<Rightarrow>
          (case getitem m point of
             Inl e \<Rightarrow> Inl e
           | Inr v \<Rightarrow>
               if v = FOOD then Inr False
               else if v \<noteq> EMPTY then Inr True
               else Inr False))"

subsection \<open>The random source and food placement\<close>

text \<open>
  The module-global generator is an explicit stream of natural numbers, one consumed per call
  of \<open>random.randint\<close>.  \<open>randint a b\<close> returns a value of \<open>[a, b]\<close>: the draw reduced into the
  range, so that every value of the range is the result for some draw and no draw leaves it.
  That the choice is uniform is not part of the model.
\<close>

type_synonym rng = "nat stream"

definition randint :: "int \<Rightarrow> int \<Rightarrow> rng \<Rightarrow> error + int \<times> rng" where
  "randint a b rs =
     (if b < a then Inl ValueError_randint
      else Inr (a + int (shd rs mod nat (b - a + 1)), stl rs))"

definition random_point :: "snake_map \<Rightarrow> rng \<Rightarrow> error + point \<times> rng" where
  "random_point m rs =
     (case randint 0 (width m - 1) rs of
        Inl e \<Rightarrow> Inl e
      | Inr (x, rs1) \<Rightarrow>
          (case randint 0 (height m - 1) rs1 of
             Inl e \<Rightarrow> Inl e
           | Inr (y, rs2) \<Rightarrow> Inr ((x, y), rs2)))"

text \<open>
  The rejection loop of \<open>place_food\<close> may run forever; \<open>None\<close> is that it never returns.
\<close>

partial_function (option) place_food :: "snake_map \<Rightarrow> rng \<Rightarrow> (error + snake_map \<times> rng) option" where
  "place_food m rs =
     (case random_point m rs of
        Inl e \<Rightarrow> Some (Inl e)
      | Inr (point, rs') \<Rightarrow>
          (case getitem m point of
             Inl e \<Rightarrow> Some (Inl e)
           | Inr v \<Rightarrow>
               if v \<noteq> EMPTY then place_food m rs'
               else (case setitem m point FOOD of
                       Inl e \<Rightarrow> Some (Inl e)
                     | Inr m' \<Rightarrow> Some (Inr (m', rs')))))"

subsection \<open>Construction and \<open>move\<close>\<close>

text \<open>
  \<open>math.floor(n / 2)\<close> for an integer \<open>n\<close>.  The division of two integers returns the float
  (an IEEE double, 53 significant bits) nearest to the exact quotient, ties going to the even
  significand, and raises \<open>OverflowError\<close> when that float would be \<open>2 ^ 1024\<close> or more in
  magnitude.  For \<open>n\<close> of at most 53 bits the quotient is exact, and its floor is \<open>n div 2\<close>
  (\<open>div\<close> on \<^typ>\<open>int\<close> rounds down, as \<open>floor\<close> does).  For a longer \<open>n\<close> the magnitude is
  rounded to its 53 leading bits, \<open>q'\<close> scaled by \<open>2 ^ s\<close>, and halved; the result is an
  integer, which \<open>floor\<close> leaves as it is.  \<open>bit_length\<close> is the number of bits of a natural
  number.
\<close>

fun bit_length :: "nat \<Rightarrow> nat" where
  "bit_length n = (if n = 0 then 0 else Suc (bit_length (n div 2)))"

definition floor_half :: "int \<Rightarrow> error + int" where
  "floor_half n =
     (let a = nat \<bar>n\<bar>; b = bit_length a
      in if b \<le> 53 then Inr (n div 2)
         else
           (let s = b - 53; q = a div 2 ^ s; r = a mod 2 ^ s;
                q' = (if 2 ^ s < 2 * r \<or> (2 * r = 2 ^ s \<and> odd q) then q + 1 else q);
                v = q' * 2 ^ (s - 1)
            in if 2 ^ 1024 \<le> v then Inl OverflowError else Inr (sgn n * int v)))"

text \<open>
  \<open>blank_map\<close> is the object after lines 38 to 46 of the source: the fields set and the list
  filled, before the head cell is written.  \<open>range(n)\<close> is empty for \<open>n \<le> 0\<close>.  The model
  puts no bound on memory: filling the list always succeeds.
\<close>

definition blank_map :: "int \<Rightarrow> int \<Rightarrow> error + snake_map" where
  "blank_map w h =
     (case floor_half w of
        Inl e \<Rightarrow> Inl e
      | Inr cx \<Rightarrow>
          (case floor_half h of
             Inl e \<Rightarrow> Inl e
           | Inr cy \<Rightarrow>
               Inr \<lparr>width = w, height = h, grid = replicate (nat ((w * h) + 1)) EMPTY,
                    head = (cx, cy), tail = (cx, cy), length_m = 1\<rparr>))"

definition Construct :: "int \<Rightarrow> int \<Rightarrow> rng \<Rightarrow> (error + snake_map \<times> rng) option" where
  "Construct w h rs =
     (case blank_map w h of
        Inl e \<Rightarrow> Some (Inl e)
      | Inr m0 \<Rightarrow>
          (case setitem m0 (head m0) NO_DIRECTION of
             Inl e \<Rightarrow> Some (Inl e)
           | Inr m1 \<Rightarrow> place_food m1 rs))"

text \<open>The two branches after the head has advanced (lines 85 to 92 of the source).\<close>

definition eat_step :: "snake_map \<Rightarrow> rng \<Rightarrow> (error + snake_map \<times> rng) option" where
  "eat_step m rs =
     (case place_food m rs of
        None \<Rightarrow> None
      | Some (Inl e) \<Rightarrow> Some (Inl e)
      | Some (Inr (m', rs')) \<Rightarrow> Some (Inr (m'\<lparr>length_m := length_m m' + 1\<rparr>, rs')))"

definition tail_step :: "snake_map \<Rightarrow> error + snake_map" where
  "tail_step m =
     (case getitem m (tail m) of
        Inl e \<Rightarrow> Inl e
      | Inr tv \<Rightarrow>
          (case move_point (tail m) tv of
             Inl e \<Rightarrow> Inl e
           | Inr new_tail \<Rightarrow>
               (case setitem m (tail m) EMPTY of
                  Inl e \<Rightarrow> Inl e
                | Inr m' \<Rightarrow> Inr (m'\<lparr>tail := new_tail\<rparr>))))"

text \<open>Lines 79 to 83: the conditional write, the unconditional write, the new head.\<close>

definition advance_head :: "snake_map \<Rightarrow> int \<Rightarrow> point \<Rightarrow> error + snake_map" where
  "advance_head m direction new_point =
     (case getitem m (head m) of
        Inl e \<Rightarrow> Inl e
      | Inr hv \<Rightarrow>
          (case (if hv = NO_DIRECTION then setitem m (head m) direction else Inr m) of
             Inl e \<Rightarrow> Inl e
           | Inr m1 \<Rightarrow>
               (case setitem m1 (head m1) direction of
                  Inl e \<Rightarrow> Inl e
                | Inr m2 \<Rightarrow> Inr (m2\<lparr>head := new_point\<rparr>))))"

text \<open>Lines 85 to 95, from the state whose head is already \<open>new_point\<close>.\<close>

definition finish_move ::
  "snake_map \<Rightarrow> int \<Rightarrow> point \<Rightarrow> rng \<Rightarrow> (error + string list \<times> snake_map \<times> rng) option" where
  "finish_move m direction new_point rs =
     (case getitem m new_point of
        Inl e \<Rightarrow> Some (Inl e)
      | Inr nv \<Rightarrow>
          if nv = FOOD then
            (case eat_step m rs of
               None \<Rightarrow> None
             | Some (Inl e) \<Rightarrow> Some (Inl e)
             | Some (Inr (m', rs')) \<Rightarrow>
                 (case setitem m' new_point direction of
                    Inl e \<Rightarrow> Some (Inl e)
                  | Inr m'' \<Rightarrow> Some (Inr ([''eat''], m'', rs'))))
          else
            (case tail_step m of
               Inl e \<Rightarrow> Some (Inl e)
             | Inr m' \<Rightarrow>
                 (case setitem m' new_point direction of
                    Inl e \<Rightarrow> Some (Inl e)
                  | Inr m'' \<Rightarrow> Some (Inr ([], m'', rs)))))"

text \<open>
  \<open>move\<close> returns the events, the state after the call and the rest of the random source;
  \<open>Some (Inl e)\<close> is an exception, \<open>None\<close> a call that never returns.
\<close>

definition move ::
  "snake_map \<Rightarrow> int \<Rightarrow> rng \<Rightarrow> (error + string list \<times> snake_map \<times> rng) option" where
  "move m direction rs =
     (case move_point (head m) direction of
        Inl e \<Rightarrow> Some (Inl e)
      | Inr new_point \<Rightarrow>
          (case check_collision m new_point of
             Inl e \<Rightarrow> Some (Inl e)
           | Inr True \<Rightarrow> Some (Inr ([''die''], m, rs))
           | Inr False \<Rightarrow>
               (case advance_head m direction new_point of
                  Inl e \<Rightarrow> Some (Inl e)
                | Inr m' \<Rightarrow> finish_move m' direction new_point rs)))"

section \<open>Notions of the specification\<close>

subsection \<open>Bounds, reachable states and the cells of the grid\<close>

text \<open>The rectangle \<open>[0, width) \<times> [0, height)\<close>.\<close>

definition in_bounds :: "snake_map \<Rightarrow> point \<Rightarrow> bool" where
  "in_bounds m p = (0 \<le> fst p \<and> fst p < width m \<and> 0 \<le> snd p \<and> snd p < height m)"

text \<open>
  A state is reachable when a constructor call returned it, or a call of \<open>move\<close> on a
  reachable state returned and left it.  A call that raises or never returns yields no state.
\<close>

inductive reachable :: "snake_map \<Rightarrow> bool" where
  init: "Construct w h rs = Some (Inr (m, rs')) \<Longrightarrow> reachable m"
| step: "reachable m \<Longrightarrow> move m d rs = Some (Inr (ev, m', rs')) \<Longrightarrow> reachable m'"

text \<open>The points of the grid, and those of them that hold food or are not empty.\<close>

definition points :: "snake_map \<Rightarrow> point list" where
  "points m = List.product [0..width m - 1] [0..height m - 1]"

definition food_cells :: "snake_map \<Rightarrow> point list" where
  "food_cells m = filter (\<lambda>p. getitem m p = Inr FOOD) (points m)"

definition nonempty_cells :: "snake_map \<Rightarrow> point list" where
  "nonempty_cells m =
     filter (\<lambda>p. case getitem m p of Inl e \<Rightarrow> False | Inr v \<Rightarrow> v \<noteq> EMPTY) (points m)"

subsection \<open>The path from the tail to the head\<close>

text \<open>
  \<open>follow m p n\<close> starts at \<open>p\<close> and steps \<open>n\<close> times, each time by the direction stored in
  the cell it stands on.
\<close>

fun follow :: "snake_map \<Rightarrow> point \<Rightarrow> nat \<Rightarrow> error + point" where
  "follow m p 0 = Inr p"
| "follow m p (Suc n) =
     (case getitem m p of
        Inl e \<Rightarrow> Inl e
      | Inr v \<Rightarrow> (case move_point p v of Inl e \<Rightarrow> Inl e | Inr q \<Rightarrow> follow m q n))"

definition path_ok :: "snake_map \<Rightarrow> bool" where
  "path_ok m =
     (follow m (tail m) (nat (length_m m - 1)) = Inr (head m) \<and>
      (\<forall>k \<in> {..nat (length_m m - 1)}.
         case follow m (tail m) k of
           Inl e \<Rightarrow> False
         | Inr p \<Rightarrow> (case getitem m p of Inl e \<Rightarrow> False | Inr v \<Rightarrow> v \<noteq> EMPTY)))"

subsection \<open>When the rejection loop returns\<close>

text \<open>
  \<open>finds_empty m rs n\<close>: one of the first \<open>n\<close> points that \<open>random_point\<close> draws from \<open>rs\<close>
  is an empty cell of \<open>m\<close>.
\<close>

fun finds_empty :: "snake_map \<Rightarrow> rng \<Rightarrow> nat \<Rightarrow> bool" where
  "finds_empty m rs 0 = False"
| "finds_empty m rs (Suc n) =
     (case random_point m rs of
        Inl e \<Rightarrow> False
      | Inr (p, rs') \<Rightarrow> getitem m p = Inr EMPTY \<or> finds_empty m rs' n)"

subsection \<open>The move without the conditional write\<close>

text \<open>
  The specification keeps the unconditional write of line 82 only.  \<open>move_unconditional\<close> is
  \<open>move\<close> with lines 79 and 80 left out, and nothing else changed.
\<close>

definition advance_head_unconditional :: "snake_map \<Rightarrow> int \<Rightarrow> point \<Rightarrow> error + snake_map" where
  "advance_head_unconditional m direction new_point =
     (case setitem m (head m) direction of
        Inl e \<Rightarrow> Inl e
      | Inr m2 \<Rightarrow> Inr (m2\<lparr>head := new_point\<rparr>))"

definition move_unconditional ::
  "snake_map \<Rightarrow> int \<Rightarrow> rng \<Rightarrow> (error + string list \<times> snake_map \<times> rng) option" where
  "move_unconditional m direction rs =
     (case move_point (head m) direction of
        Inl e \<Rightarrow> Some (Inl e)
      | Inr new_point \<Rightarrow>
          (case check_collision m new_point of
             Inl e \<Rightarrow> Some (Inl e)
           | Inr True \<Rightarrow> Some (Inr ([''die''], m, rs))
           | Inr False \<Rightarrow>
               (case advance_head_unconditional m direction new_point of
                  Inl e \<Rightarrow> Some (Inl e)
                | Inr m' \<Rightarrow> finish_move m' direction new_point rs)))"

section \<open>Notions of the proofs\<close>

subsection \<open>The grid as a function from points to cell values\<close>

definition index_of :: "snake_map \<Rightarrow> point \<Rightarrow> nat" where
  "index_of m p = nat ((snd p * width m) + fst p)"

definition cell :: "snake_map \<Rightarrow> point \<Rightarrow> int" where
  "cell m p = grid m ! index_of m p"

definition set_cell :: "snake_map \<Rightarrow> point \<Rightarrow> int \<Rightarrow> snake_map" where
  "set_cell m p v = m\<lparr>grid := (grid m)[index_of m p := v]\<rparr>"

text \<open>The list that \<open>__init__\<close> allocates has one entry more than the grid has cells.\<close>

definition wf_grid :: "snake_map \<Rightarrow> bool" where
  "wf_grid m = (int (length (grid m)) = width m * height m + 1)"

text \<open>
  The blank object with its centre at \<open>c\<close>, and the state in which \<open>__init__\<close> calls
  \<open>place_food\<close>: the blank object with \<open>NO_DIRECTION\<close> written at the centre.
\<close>

definition blank_grid :: "int \<Rightarrow> int \<Rightarrow> point \<Rightarrow> snake_map" where
  "blank_grid w h c =
     \<lparr>width = w, height = h, grid = replicate (nat ((w * h) + 1)) EMPTY,
      head = c, tail = c, length_m = 1\<rparr>"

definition initial_map :: "int \<Rightarrow> int \<Rightarrow> point \<Rightarrow> snake_map" where
  "initial_map w h c = set_cell (blank_grid w h c) c NO_DIRECTION"

text \<open>The values \<open>move_point\<close> accepts as a direction.\<close>

definition dirs :: "int set" where
  "dirs = {NORTH, EAST, SOUTH, WEST, NO_DIRECTION}"

subsection \<open>The states after a move that does not collide\<close>

definition step_state :: "snake_map \<Rightarrow> int \<Rightarrow> point \<Rightarrow> point \<Rightarrow> snake_map" where
  "step_state m d np nt =
     set_cell ((set_cell ((set_cell m (head m) d)\<lparr>head := np\<rparr>) (tail m) EMPTY)\<lparr>tail := nt\<rparr>) np d"

definition eat_state :: "snake_map \<Rightarrow> int \<Rightarrow> point \<Rightarrow> point \<Rightarrow> snake_map" where
  "eat_state m d np p =
     set_cell ((set_cell ((set_cell m (head m) d)\<lparr>head := np\<rparr>) p FOOD)
                 \<lparr>length_m := length_m m + 1\<rparr>) np d"

subsection \<open>The invariant\<close>

text \<open>
  \<open>chain c ps\<close>: each point of \<open>ps\<close> but the last steps to the next one by the direction
  that \<open>c\<close> stores for it.
\<close>

fun chain :: "(point \<Rightarrow> int) \<Rightarrow> point list \<Rightarrow> bool" where
  "chain c [] = True"
| "chain c [p] = True"
| "chain c (p # q # ps) = (move_point p (c p) = Inr q \<and> chain c (q # ps))"

text \<open>
  \<open>snake_inv m body f\<close>: \<open>body\<close> lists the cells of the snake from the tail to the head, \<open>f\<close>
  is the one food cell, and every other cell of the grid is empty.
\<close>

definition snake_inv :: "snake_map \<Rightarrow> point list \<Rightarrow> point \<Rightarrow> bool" where
  "snake_inv m body f =
     (wf_grid m \<and> body \<noteq> [] \<and> hd body = tail m \<and> last body = head m \<and>
      int (length body) = length_m m \<and> distinct body \<and>
      (\<forall>p \<in> set body. in_bounds m p \<and> cell m p \<in> dirs) \<and>
      chain (cell m) body \<and>
      in_bounds m f \<and> cell m f = FOOD \<and>
      (\<forall>p. in_bounds m p \<longrightarrow> p \<notin> set body \<longrightarrow> p \<noteq> f \<longrightarrow> cell m p = EMPTY))"

subsection \<open>Concrete states\<close>

text \<open>
  \<open>m13\<close> is \<open>Map(1, 3)\<close> with the food drawn at \<open>(0, 0)\<close>; \<open>m13_south\<close> and \<open>m13_north\<close>
  are the states after it has moved south, and north onto the food; \<open>m12\<close> is \<open>Map(1, 2)\<close>,
  whose two cells are the head and the food.
\<close>

definition m13 :: snake_map where
  "m13 = \<lparr>width = 1, height = 3, grid = [FOOD, NO_DIRECTION, EMPTY, EMPTY],
          head = (0, 1), tail = (0, 1), length_m = 1\<rparr>"

definition m13_south :: snake_map where
  "m13_south = \<lparr>width = 1, height = 3, grid = [FOOD, EMPTY, SOUTH, EMPTY],
          head = (0, 2), tail = (0, 2), length_m = 1\<rparr>"

definition m13_north :: snake_map where
  "m13_north = \<lparr>width = 1, height = 3, grid = [NORTH, NORTH, FOOD, EMPTY],
          head = (0, 0), tail = (0, 1), length_m = 2\<rparr>"

definition m12 :: snake_map where
  "m12 = \<lparr>width = 1, height = 2, grid = [FOOD, NO_DIRECTION, EMPTY],
          head = (0, 1), tail = (0, 1), length_m = 1\<rparr>"

section \<open>Lemmas\<close>

lemmas cell_consts =
  EMPTY_def NORTH_def EAST_def SOUTH_def WEST_def NO_DIRECTION_def FOOD_def

subsection \<open>Reading and writing the grid\<close>

lemma check_point_eq:
  "check_point m p = (if in_bounds m p then Inr () else Inl (IndexError_point p))"
  by (cases p) (auto simp: check_point_def in_bounds_def)

lemma index_lt:
  assumes "in_bounds m p"
  shows "0 \<le> snd p * width m + fst p" "snd p * width m + fst p < width m * height m"
proof -
  obtain x y where p: "p = (x, y)" by (cases p)
  from assms p have b: "0 \<le> x" "x < width m" "0 \<le> y" "y < height m"
    by (simp_all add: in_bounds_def)
  show "0 \<le> snd p * width m + fst p" using b p by simp
  have "y + 1 \<le> height m" using b by simp
  then have "(y + 1) * width m \<le> height m * width m"
    using b by (intro mult_right_mono) auto
  then show "snd p * width m + fst p < width m * height m"
    using b p by (simp add: algebra_simps)
qed

lemma index_inj:
  assumes "in_bounds m p" "in_bounds m q" "index_of m p = index_of m q"
  shows "p = q"
proof -
  obtain x y where p: "p = (x, y)" by (cases p)
  obtain x' y' where q: "q = (x', y')" by (cases q)
  from assms p q have b: "0 \<le> x" "x < width m" "0 \<le> y" "0 \<le> x'" "x' < width m" "0 \<le> y'"
    by (simp_all add: in_bounds_def)
  have "0 \<le> y * width m + x" "0 \<le> y' * width m + x'" using b by simp_all
  with assms(3) p q have e: "y * width m + x = y' * width m + x'"
    by (simp add: index_of_def)
  have "(y * width m + x) div width m = y" using b by simp
  moreover have "(y' * width m + x') div width m = y'" using b by simp
  ultimately have "y = y'" using e by simp
  with e show ?thesis using p q by simp
qed

lemma getitem_in:
  "wf_grid m \<Longrightarrow> in_bounds m p \<Longrightarrow> getitem m p = Inr (cell m p)"
  using index_lt [of m p]
  by (cases p) (simp add: getitem_def check_point_eq list_get_def norm_index_def wf_grid_def cell_def index_of_def)

lemma getitem_out:
  "\<not> in_bounds m p \<Longrightarrow> getitem m p = Inl (IndexError_point p)"
  by (cases p) (simp add: getitem_def check_point_eq)

lemma setitem_in:
  "wf_grid m \<Longrightarrow> in_bounds m p \<Longrightarrow> setitem m p v = Inr (set_cell m p v)"
  using index_lt [of m p]
  by (cases p) (simp add: setitem_def check_point_eq list_set_def norm_index_def wf_grid_def set_cell_def index_of_def)

lemma setitem_out:
  "\<not> in_bounds m p \<Longrightarrow> setitem m p v = Inl (IndexError_point p)"
  by (cases p) (simp add: setitem_def check_point_eq)

lemma set_cell_fields [simp]:
  "width (set_cell m p v) = width m" "height (set_cell m p v) = height m"
  "head (set_cell m p v) = head m" "tail (set_cell m p v) = tail m"
  "length_m (set_cell m p v) = length_m m"
  by (simp_all add: set_cell_def)

lemma in_bounds_set_cell [simp]: "in_bounds (set_cell m p v) q = in_bounds m q"
  by (simp add: in_bounds_def)

lemma wf_grid_set_cell [simp]: "wf_grid (set_cell m p v) = wf_grid m"
  by (simp add: wf_grid_def set_cell_def)

lemma cell_set_cell:
  assumes "wf_grid m" "in_bounds m p" "in_bounds m q"
  shows "cell (set_cell m p v) q = (if q = p then v else cell m q)"
proof -
  have lt: "index_of m p < length (grid m)"
    using index_lt [OF assms(2)] assms(1) by (simp add: wf_grid_def index_of_def)
  have "index_of (set_cell m p v) q = index_of m q" by (simp add: index_of_def)
  then show ?thesis
    using lt index_inj [OF assms(3) assms(2)]
    by (auto simp: cell_def set_cell_def nth_list_update)
qed

lemma field_update_simps [simp]:
  "in_bounds (m\<lparr>head := x\<rparr>) p = in_bounds m p"
  "in_bounds (m\<lparr>tail := x\<rparr>) p = in_bounds m p"
  "in_bounds (m\<lparr>length_m := k\<rparr>) p = in_bounds m p"
  "wf_grid (m\<lparr>head := x\<rparr>) = wf_grid m"
  "wf_grid (m\<lparr>tail := x\<rparr>) = wf_grid m"
  "wf_grid (m\<lparr>length_m := k\<rparr>) = wf_grid m"
  "cell (m\<lparr>head := x\<rparr>) p = cell m p"
  "cell (m\<lparr>tail := x\<rparr>) p = cell m p"
  "cell (m\<lparr>length_m := k\<rparr>) p = cell m p"
  by (simp_all add: in_bounds_def wf_grid_def cell_def index_of_def)

lemma set_cell_twice: "set_cell (set_cell m p v) p v = set_cell m p v"
  by (simp add: set_cell_def index_of_def)

subsection \<open>Food placement\<close>

lemma random_point_eq:
  assumes "1 \<le> width m" "1 \<le> height m"
  shows "random_point m rs =
    Inr ((int (shd rs mod nat (width m)), int (shd (stl rs) mod nat (height m))), stl (stl rs))"
  using assms by (simp add: random_point_def randint_def)

lemma random_point_in_bounds:
  assumes "1 \<le> width m" "1 \<le> height m" "random_point m rs = Inr (p, rs')"
  shows "in_bounds m p"
proof -
  have lt: "int (k mod nat w) < w" if "1 \<le> w" for k w
    using that by (simp add: zless_nat_eq_int_zless [symmetric])
  show ?thesis
    using assms lt [OF assms(1)] lt [OF assms(2)] by (auto simp: random_point_eq in_bounds_def)
qed

lemma place_food_Some:
  assumes "place_food m rs = Some r"
  shows "wf_grid m \<Longrightarrow> 1 \<le> width m \<Longrightarrow> 1 \<le> height m \<Longrightarrow>
   \<exists>p rs'. r = Inr (set_cell m p FOOD, rs') \<and> in_bounds m p \<and> cell m p = EMPTY"
proof (induction rule: place_food.raw_induct [OF _ assms, case_names step])
  case (step place_food m rs r)
  from step.prems have wf: "wf_grid m" and w: "1 \<le> width m" and h: "1 \<le> height m"
    by blast+
  obtain p rs1 where rp: "random_point m rs = Inr (p, rs1)"
    using random_point_eq [OF w h] by blast
  have ib: "in_bounds m p" using random_point_in_bounds [OF w h rp] .
  show ?case
  proof (cases "cell m p = EMPTY")
    case True
    with step.hyps rp ib wf have "r = Inr (set_cell m p FOOD, rs1)"
      by (auto simp: getitem_in setitem_in)
    with ib True show ?thesis by blast
  next
    case False
    with step.hyps rp ib wf have "place_food m rs1 = Some r"
      by (simp add: getitem_in)
    then show ?thesis using step.IH wf w h by blast
  qed
qed

lemma place_food_finds:
  assumes "wf_grid m" "1 \<le> width m" "1 \<le> height m"
  shows "finds_empty m rs n \<Longrightarrow> \<exists>r. place_food m rs = Some r"
proof (induction n arbitrary: rs)
  case 0
  then show ?case by simp
next
  case (Suc n)
  obtain p rs1 where rp: "random_point m rs = Inr (p, rs1)"
    using random_point_eq [OF assms(2,3)] by blast
  have ib: "in_bounds m p" using random_point_in_bounds [OF assms(2,3) rp] .
  show ?case
  proof (cases "cell m p = EMPTY")
    case True
    then show ?thesis
      using rp ib assms by (subst place_food.simps) (simp add: getitem_in setitem_in)
  next
    case False
    with Suc.prems rp ib assms have "finds_empty m rs1 n" by (simp add: getitem_in)
    then obtain r where "place_food m rs1 = Some r" using Suc.IH by blast
    then show ?thesis
      using rp ib assms False by (subst place_food.simps) (simp add: getitem_in)
  qed
qed

lemma place_food_full:
  assumes "wf_grid m" "1 \<le> width m" "1 \<le> height m" "\<forall>p. in_bounds m p \<longrightarrow> cell m p \<noteq> EMPTY"
  shows "place_food m rs = None"
proof (cases "place_food m rs")
  case None
  then show ?thesis .
next
  case (Some r)
  from place_food_Some [OF Some assms(1-3)] assms(4) show ?thesis by blast
qed

subsection \<open>The body of the snake as a chain of cells\<close>

lemma chain_cong:
  "(\<And>p. p \<in> set (butlast ps) \<Longrightarrow> c p = c' p) \<Longrightarrow> chain c ps = chain c' ps"
  by (induction c ps rule: chain.induct) auto

lemma chain_snoc:
  "chain c (ps @ [h]) \<Longrightarrow> move_point h (c h) = Inr np \<Longrightarrow> chain c (ps @ [h, np])"
  by (induction c ps rule: chain.induct) auto

subsection \<open>What the steps of move compute on a well-formed grid\<close>

lemma move_point_dirs: "move_point p v = Inr q \<Longrightarrow> v \<in> dirs"
  by (cases p) (auto simp: move_point_def dirs_def split: if_splits)


lemma move_point_NO_DIRECTION: "move_point p NO_DIRECTION = Inr p"
  by (cases p) (simp add: move_point_def cell_consts)

lemma EMPTY_FOOD_not_dirs [simp]:
  "EMPTY \<notin> dirs" "FOOD \<notin> dirs" "FOOD \<noteq> EMPTY" "EMPTY \<noteq> FOOD"
  by (simp_all add: dirs_def cell_consts)

lemma check_collision_eq:
  "wf_grid m \<Longrightarrow>
   check_collision m p = Inr (\<not> in_bounds m p \<or> (cell m p \<noteq> FOOD \<and> cell m p \<noteq> EMPTY))"
  by (simp add: check_collision_def check_point_eq getitem_in)

lemma advance_head_eq:
  "wf_grid m \<Longrightarrow> in_bounds m (head m) \<Longrightarrow>
   advance_head m d np = Inr ((set_cell m (head m) d)\<lparr>head := np\<rparr>)"
  by (simp add: advance_head_def getitem_in setitem_in set_cell_twice)

lemma tail_step_eq:
  "wf_grid m \<Longrightarrow> in_bounds m (tail m) \<Longrightarrow> move_point (tail m) (cell m (tail m)) = Inr nt \<Longrightarrow>
   tail_step m = Inr ((set_cell m (tail m) EMPTY)\<lparr>tail := nt\<rparr>)"
  by (simp add: tail_step_def getitem_in setitem_in)

lemma step_state_fields [simp]:
  "width (step_state m d np nt) = width m" "height (step_state m d np nt) = height m"
  "head (step_state m d np nt) = np" "tail (step_state m d np nt) = nt"
  "length_m (step_state m d np nt) = length_m m"
  "wf_grid (step_state m d np nt) = wf_grid m"
  "in_bounds (step_state m d np nt) q = in_bounds m q"
  by (simp_all add: step_state_def)

lemma eat_state_fields [simp]:
  "width (eat_state m d np p) = width m" "height (eat_state m d np p) = height m"
  "head (eat_state m d np p) = np" "tail (eat_state m d np p) = tail m"
  "length_m (eat_state m d np p) = length_m m + 1"
  "wf_grid (eat_state m d np p) = wf_grid m"
  "in_bounds (eat_state m d np p) q = in_bounds m q"
  by (simp_all add: eat_state_def)

lemma cell_step_state:
  assumes "wf_grid m" "in_bounds m (head m)" "in_bounds m (tail m)" "in_bounds m np" "in_bounds m q"
  shows "cell (step_state m d np nt) q =
    (if q = np then d else if q = tail m then EMPTY else if q = head m then d else cell m q)"
  using assms by (simp add: step_state_def cell_set_cell)

lemma cell_eat_state:
  assumes "wf_grid m" "in_bounds m (head m)" "in_bounds m p" "in_bounds m np" "in_bounds m q"
  shows "cell (eat_state m d np p) q =
    (if q = np then d else if q = p then FOOD else if q = head m then d else cell m q)"
  using assms by (simp add: eat_state_def cell_set_cell)

lemma move_die:
  assumes "wf_grid m" "move_point (head m) d = Inr np"
    "\<not> in_bounds m np \<or> (cell m np \<noteq> FOOD \<and> cell m np \<noteq> EMPTY)"
  shows "move m d rs = Some (Inr ([''die''], m, rs))"
  using assms by (simp add: move_def check_collision_eq)

lemma move_plain:
  assumes "wf_grid m" "in_bounds m (head m)" "in_bounds m (tail m)"
    "move_point (head m) d = Inr np" "in_bounds m np" "cell m np = EMPTY" "np \<noteq> head m"
    "move_point (tail m) (cell (set_cell m (head m) d) (tail m)) = Inr nt"
  shows "move m d rs = Some (Inr ([], step_state m d np nt, rs))"
proof -
  let ?m1 = "(set_cell m (head m) d)\<lparr>head := np\<rparr>"
  have c: "cell ?m1 np = EMPTY" using assms by (simp add: cell_set_cell)
  have t: "tail_step ?m1 = Inr ((set_cell ?m1 (tail m) EMPTY)\<lparr>tail := nt\<rparr>)"
    using assms tail_step_eq [of ?m1 nt] by simp
  show ?thesis
    using assms c t
    by (simp add: move_def check_collision_eq advance_head_eq finish_move_def getitem_in
        setitem_in step_state_def)
qed

lemma move_eat:
  assumes "wf_grid m" "in_bounds m (head m)"
    "move_point (head m) d = Inr np" "in_bounds m np" "cell m np = FOOD" "np \<noteq> head m"
  shows "move m d rs =
    (case place_food ((set_cell m (head m) d)\<lparr>head := np\<rparr>) rs of
       None \<Rightarrow> None
     | Some r \<Rightarrow> (case r of
         Inl e \<Rightarrow> Some (Inl e)
       | Inr (m', rs') \<Rightarrow> Some (Inr ([''eat''], set_cell (m'\<lparr>length_m := length_m m' + 1\<rparr>) np d, rs'))))"
proof -
  let ?m1 = "(set_cell m (head m) d)\<lparr>head := np\<rparr>"
  have c: "cell ?m1 np = FOOD" using assms by (simp add: cell_set_cell)
  have w: "1 \<le> width ?m1" "1 \<le> height ?m1" using assms(4) by (auto simp: in_bounds_def)
  have wf: "wf_grid ?m1" using assms by simp
  have m: "move m d rs = (case eat_step ?m1 rs of
               None \<Rightarrow> None
             | Some (Inl e) \<Rightarrow> Some (Inl e)
             | Some (Inr (m', rs')) \<Rightarrow>
                 (case setitem m' np d of
                    Inl e \<Rightarrow> Some (Inl e)
                  | Inr m'' \<Rightarrow> Some (Inr ([''eat''], m'', rs'))))"
    using assms c by (simp add: move_def check_collision_eq advance_head_eq finish_move_def getitem_in)
  show ?thesis
  proof (cases "place_food ?m1 rs")
    case None
    then show ?thesis by (simp add: m eat_step_def)
  next
    case (Some r)
    from place_food_Some [OF Some wf w] obtain p rs' where
      r: "r = Inr (set_cell ?m1 p FOOD, rs')" and "in_bounds ?m1 p" by blast
    then show ?thesis
      using Some assms by (simp add: m eat_step_def setitem_in)
  qed
qed

subsection \<open>The invariant of reachable states\<close>

lemma snake_inv_head: "snake_inv m body f \<Longrightarrow> head m \<in> set body"
  by (auto simp: snake_inv_def dest: last_in_set)

lemma snake_inv_tail: "snake_inv m body f \<Longrightarrow> tail m \<in> set body"
  by (auto simp: snake_inv_def dest: hd_in_set)

lemma snake_inv_body: "snake_inv m body f \<Longrightarrow> p \<in> set body \<Longrightarrow> in_bounds m p \<and> cell m p \<in> dirs"
  by (simp add: snake_inv_def)

lemma snake_inv_not_body:
  assumes "snake_inv m body f" "cell m p \<notin> dirs"
  shows "p \<notin> set body"
  using assms snake_inv_body by blast

lemma snake_inv_food:
  assumes "snake_inv m body f" "in_bounds m p" "cell m p = FOOD"
  shows "p = f"
proof (rule ccontr)
  assume "p \<noteq> f"
  moreover have "p \<notin> set body" using assms snake_inv_not_body [of m body f p] by simp
  moreover from assms(1)
  have "\<And>q. in_bounds m q \<Longrightarrow> q \<notin> set body \<Longrightarrow> q \<noteq> f \<Longrightarrow> cell m q = EMPTY"
    unfolding snake_inv_def by blast
  ultimately have "cell m p = EMPTY" using assms(2) by blast
  with assms(3) show False by simp
qed

lemma inv_step_single:
  assumes inv: "snake_inv m [t] f"
    and mp: "move_point (head m) d = Inr np" and ib: "in_bounds m np" and e: "cell m np = EMPTY"
  shows "snake_inv (step_state m d np np) [np] f"
    and "move_point (tail m) (cell (set_cell m (head m) d) (tail m)) = Inr np"
proof -
  from inv have t: "tail m = t" "head m = t" and wf: "wf_grid m" and ibt: "in_bounds m t"
    and ct: "cell m t \<in> dirs" and len: "length_m m = 1"
    and f: "in_bounds m f" "cell m f = FOOD"
    and rest: "\<And>p. in_bounds m p \<Longrightarrow> p \<noteq> t \<Longrightarrow> p \<noteq> f \<Longrightarrow> cell m p = EMPTY"
    by (auto simp: snake_inv_def)
  have d: "d \<in> dirs" using mp by (rule move_point_dirs)
  have npt: "np \<noteq> t" using ct e by auto
  have npf: "np \<noteq> f" using f e by auto
  have ft: "f \<noteq> t" using ct f by auto
  have cs: "cell (step_state m d np np) q =
      (if q = np then d else if q = t then EMPTY else cell m q)" if "in_bounds m q" for q
    using cell_step_state [of m np q d np] wf ibt ib that t by simp
  show "move_point (tail m) (cell (set_cell m (head m) d) (tail m)) = Inr np"
    using mp t wf ibt by (simp add: cell_set_cell)
  show "snake_inv (step_state m d np np) [np] f"
    unfolding snake_inv_def
    using wf ib len d f npt npf ft rest by (simp add: cs)
qed

lemma inv_step_longer:
  assumes inv: "snake_inv m (t # r # rest) f"
    and mp: "move_point (head m) d = Inr np" and ib: "in_bounds m np" and e: "cell m np = EMPTY"
  shows "snake_inv (step_state m d np r) (r # rest @ [np]) f"
    and "move_point (tail m) (cell (set_cell m (head m) d) (tail m)) = Inr r"
proof -
  let ?body = "t # r # rest"
  let ?m' = "step_state m d np r"
  from inv have t: "tail m = t" and h: "head m = last (r # rest)" and wf: "wf_grid m"
    and len: "int (length ?body) = length_m m" and dist: "distinct ?body"
    and body: "\<And>p. p \<in> set ?body \<Longrightarrow> in_bounds m p \<and> cell m p \<in> dirs"
    and ch: "chain (cell m) ?body"
    and f: "in_bounds m f" "cell m f = FOOD"
    and rest: "\<And>p. in_bounds m p \<Longrightarrow> p \<notin> set ?body \<Longrightarrow> p \<noteq> f \<Longrightarrow> cell m p = EMPTY"
    by (auto simp: snake_inv_def)
  have d: "d \<in> dirs" using mp by (rule move_point_dirs)
  have hin: "head m \<in> set (r # rest)" unfolding h by (rule last_in_set) simp
  have ht: "head m \<noteq> t" using hin dist by auto
  have ibh: "in_bounds m (head m)" using body hin by simp
  have ibt: "in_bounds m (tail m)" using body t by simp
  have npb: "np \<notin> set ?body" using body [of np] e by auto
  have npf: "np \<noteq> f" using f e by auto
  have fb: "f \<notin> set ?body" using body [of f] f by auto
  have cs: "cell ?m' q =
      (if q = np then d else if q = t then EMPTY else if q = head m then d else cell m q)"
    if "in_bounds m q" for q
    using cell_step_state [of m np q d r] wf ibh ibt ib that t by simp
  show tl: "move_point (tail m) (cell (set_cell m (head m) d) (tail m)) = Inr r"
    using ch t ht wf ibh ibt by (simp add: cell_set_cell)
  have split: "r # rest = butlast (r # rest) @ [head m]"
    unfolding h by (rule append_butlast_last_id [symmetric]) simp
  have "chain (cell m) (r # rest)" using ch by simp
  then have "chain (cell m) (butlast (r # rest) @ [head m])" using split by simp
  moreover have "cell ?m' p = cell m p" if "p \<in> set (butlast (r # rest))" for p
  proof -
    have pin: "p \<in> set (r # rest)" using that by (rule in_set_butlastD)
    have "distinct (r # rest)" using dist by simp
    then have "distinct (butlast (r # rest) @ [head m])" by (subst split [symmetric])
    then have "p \<noteq> head m" using that by auto
    moreover have "p \<noteq> t" "p \<noteq> np" using pin dist npb by auto
    moreover have "in_bounds m p" using body pin by simp
    ultimately show ?thesis by (simp add: cs)
  qed
  ultimately have "chain (cell ?m') (butlast (r # rest) @ [head m])"
    using chain_cong [of "butlast (r # rest) @ [head m]" "cell ?m'" "cell m"] by simp
  moreover have "move_point (head m) (cell ?m' (head m)) = Inr np"
    using mp ibh ht npb hin by (auto simp: cs)
  ultimately have "chain (cell ?m') (butlast (r # rest) @ [head m, np])"
    by (rule chain_snoc)
  then have ch': "chain (cell ?m') (r # rest @ [np])"
    using split by (metis append.assoc append_Cons append_Nil)
  have cells: "in_bounds m p \<and> cell ?m' p \<in> dirs" if "p \<in> set (r # rest @ [np])" for p
  proof (cases "p = np")
    case True
    then show ?thesis using ib d by (simp add: cs)
  next
    case False
    with that have pin: "p \<in> set (r # rest)" by auto
    then have "p \<noteq> t" using dist by auto
    then show ?thesis using body [of p] pin d False by (simp add: cs)
  qed
  have others: "cell ?m' p = EMPTY"
    if "in_bounds m p" "p \<notin> set (r # rest @ [np])" "p \<noteq> f" for p
  proof (cases "p = t")
    case True
    then show ?thesis using that by (simp add: cs)
  next
    case False
    with that have "p \<notin> set ?body" by auto
    then have "cell m p = EMPTY" using rest that by blast
    moreover have "p \<noteq> head m" using that hin by auto
    ultimately show ?thesis using that False by (simp add: cs)
  qed
  have cf: "cell ?m' f = FOOD" using f fb npf hin by (auto simp: cs)
  show "snake_inv ?m' (r # rest @ [np]) f"
    unfolding snake_inv_def
    using wf len dist npb ch' cells others cf f by auto
qed

lemma inv_eat:
  assumes inv: "snake_inv m body f"
    and mp: "move_point (head m) d = Inr np" and ib: "in_bounds m np" and c: "cell m np = FOOD"
    and p: "in_bounds m p" "cell ((set_cell m (head m) d)\<lparr>head := np\<rparr>) p = EMPTY"
  shows "snake_inv (eat_state m d np p) (body @ [np]) p" and "p \<noteq> np" and "np = f"
proof -
  let ?m' = "eat_state m d np p"
  from inv have t: "hd body = tail m" and h: "last body = head m" and wf: "wf_grid m"
    and ne: "body \<noteq> []"
    and len: "int (length body) = length_m m" and dist: "distinct body"
    and body: "\<And>q. q \<in> set body \<Longrightarrow> in_bounds m q \<and> cell m q \<in> dirs"
    and ch: "chain (cell m) body"
    and rest: "\<And>q. in_bounds m q \<Longrightarrow> q \<notin> set body \<Longrightarrow> q \<noteq> f \<Longrightarrow> cell m q = EMPTY"
    by (auto simp: snake_inv_def)
  have d: "d \<in> dirs" using mp by (rule move_point_dirs)
  show npf: "np = f" using inv ib c by (rule snake_inv_food)
  have hin: "head m \<in> set body" using inv by (rule snake_inv_head)
  have ibh: "in_bounds m (head m)" using body hin by simp
  have npb: "np \<notin> set body" using body [of np] c by auto
  have nph: "np \<noteq> head m" using npb hin by auto
  have c1: "cell ((set_cell m (head m) d)\<lparr>head := np\<rparr>) q = (if q = head m then d else cell m q)"
    if "in_bounds m q" for q
    using wf ibh that by (simp add: cell_set_cell)
  have ph: "p \<noteq> head m" using p d c1 [of p] by auto
  then have pe: "cell m p = EMPTY" using p c1 [of p] by simp
  show pnp: "p \<noteq> np" using pe c by auto
  have pb: "p \<notin> set body" using body [of p] pe by auto
  have cs: "cell ?m' q =
      (if q = np then d else if q = p then FOOD else if q = head m then d else cell m q)"
    if "in_bounds m q" for q
    using cell_eat_state [of m p np q d] wf ibh ib p(1) that by simp
  have split: "body = butlast body @ [head m]"
    unfolding h [symmetric] using ne by simp
  have "chain (cell m) (butlast body @ [head m])" using ch split by simp
  moreover have "cell ?m' q = cell m q" if "q \<in> set (butlast body)" for q
  proof -
    have qin: "q \<in> set body" using that by (rule in_set_butlastD)
    have "distinct (butlast body @ [head m])" using dist by (subst split [symmetric])
    then have "q \<noteq> head m" using that by auto
    moreover have "q \<noteq> p" "q \<noteq> np" using qin pb npb by auto
    moreover have "in_bounds m q" using body qin by simp
    ultimately show ?thesis by (simp add: cs)
  qed
  ultimately have "chain (cell ?m') (butlast body @ [head m])"
    using chain_cong [of "butlast body @ [head m]" "cell ?m'" "cell m"] by simp
  moreover have "move_point (head m) (cell ?m' (head m)) = Inr np"
    using mp ibh nph ph by (simp add: cs)
  ultimately have "chain (cell ?m') (butlast body @ [head m, np])"
    by (rule chain_snoc)
  then have ch': "chain (cell ?m') (body @ [np])"
    using split by (metis append.assoc append_Cons append_Nil)
  have cells: "in_bounds m q \<and> cell ?m' q \<in> dirs" if "q \<in> set (body @ [np])" for q
  proof (cases "q = np")
    case True
    then show ?thesis using ib d by (simp add: cs)
  next
    case False
    with that have qin: "q \<in> set body" by auto
    then have "q \<noteq> p" using pb by auto
    then show ?thesis using body [of q] qin d False by (simp add: cs)
  qed
  have others: "cell ?m' q = EMPTY"
    if "in_bounds m q" "q \<notin> set (body @ [np])" "q \<noteq> p" for q
  proof -
    from that have "q \<notin> set body" "q \<noteq> f" using npf by auto
    then have "cell m q = EMPTY" using rest that by blast
    moreover have "q \<noteq> head m" using that hin by auto
    ultimately show ?thesis using that by (simp add: cs)
  qed
  have cf: "cell ?m' p = FOOD" using p(1) pnp by (simp add: cs)
  have hd': "hd (body @ [np]) = tail m" using ne t by simp
  show "snake_inv ?m' (body @ [np]) p"
    unfolding snake_inv_def
    using wf len dist npb ch' cells others cf p(1) hd' by auto
qed

lemma move_cases:
  assumes inv: "snake_inv m body f" and mv: "move m d rs = Some (Inr (ev, m', rs'))"
  shows "(ev = [''die''] \<and> m' = m \<and> rs' = rs) \<or>
         (ev = [] \<and> rs' = rs \<and> length_m m' = length_m m \<and> cell m (head m') = EMPTY \<and>
            move_point (head m) d = Inr (head m') \<and> cell m' (head m') = d \<and>
            snake_inv m' (tl body @ [head m']) f) \<or>
         (ev = [''eat''] \<and> length_m m' = length_m m + 1 \<and> head m' = f \<and>
            move_point (head m) d = Inr f \<and> cell m' f = d \<and>
            (\<exists>f'. f' \<noteq> f \<and> cell m f' = EMPTY \<and> snake_inv m' (body @ [f]) f'))"
proof -
  from inv have wf: "wf_grid m" by (simp add: snake_inv_def)
  have hin: "head m \<in> set body" using inv by (rule snake_inv_head)
  have tin: "tail m \<in> set body" using inv by (rule snake_inv_tail)
  have ibh: "in_bounds m (head m)" and ch: "cell m (head m) \<in> dirs"
    using snake_inv_body [OF inv hin] by simp_all
  have ibt: "in_bounds m (tail m)" using snake_inv_body [OF inv tin] by simp
  obtain np where mp: "move_point (head m) d = Inr np"
    using mv by (cases "move_point (head m) d") (simp_all add: move_def)
  have d: "d \<in> dirs" using mp by (rule move_point_dirs)
  consider (die) "\<not> in_bounds m np \<or> (cell m np \<noteq> FOOD \<and> cell m np \<noteq> EMPTY)"
    | (plain) "in_bounds m np" "cell m np = EMPTY"
    | (eat) "in_bounds m np" "cell m np = FOOD"
    by blast
  then show ?thesis
  proof cases
    case die
    from move_die [OF wf mp die] mv show ?thesis by simp
  next
    case plain
    have nph: "np \<noteq> head m" using plain ch by auto
    obtain t rest where b: "body = t # rest"
      using inv by (cases body) (simp_all add: snake_inv_def)
    show ?thesis
    proof (cases rest)
      case Nil
      have i: "snake_inv m [t] f" using inv b Nil by simp
      note s = inv_step_single [OF i mp plain]
      from move_plain [OF wf ibh ibt mp plain nph s(2)] mv
      have "ev = []" "rs' = rs" "m' = step_state m d np np" by simp_all
      then show ?thesis
        using s(1) b Nil plain mp wf ibh ibt cell_step_state [of m np np d np] by simp
    next
      case (Cons r rest')
      have i: "snake_inv m (t # r # rest') f" using inv b Cons by simp
      note s = inv_step_longer [OF i mp plain]
      from move_plain [OF wf ibh ibt mp plain nph s(2)] mv
      have "ev = []" "rs' = rs" "m' = step_state m d np r" by simp_all
      then show ?thesis
        using s(1) b Cons plain mp wf ibh ibt cell_step_state [of m np np d r] by simp
    qed
  next
    case eat
    let ?m1 = "(set_cell m (head m) d)\<lparr>head := np\<rparr>"
    have nph: "np \<noteq> head m" using eat ch by auto
    note me = move_eat [OF wf ibh mp eat nph, of rs]
    obtain r where pf: "place_food ?m1 rs = Some r"
      using me mv by (cases "place_food ?m1 rs") simp_all
    have w: "1 \<le> width ?m1" "1 \<le> height ?m1" using eat(1) by (auto simp: in_bounds_def)
    have wf1: "wf_grid ?m1" using wf by simp
    from place_food_Some [OF pf wf1 w] obtain p rs1 where
      r: "r = Inr (set_cell ?m1 p FOOD, rs1)" and ibp: "in_bounds m p" and pe: "cell ?m1 p = EMPTY"
      by auto
    have m': "m' = eat_state m d np p" and ev: "ev = [''eat'']"
      using me mv pf r by (simp_all add: eat_state_def)
    note s = inv_eat [OF inv mp eat ibp pe]
    have "p \<noteq> head m" using pe d wf ibh ibp by (auto simp: cell_set_cell)
    then have "cell m p = EMPTY" using pe wf ibh ibp by (simp add: cell_set_cell)
    then have "\<exists>f'. f' \<noteq> f \<and> cell m f' = EMPTY \<and> snake_inv m' (body @ [f]) f'"
      using s m' by blast
    moreover have "cell m' f = d"
      using m' s(3) cell_eat_state [of m p np np d] wf ibh ibp eat(1) by simp
    moreover have "length_m m' = length_m m + 1" "head m' = f" "move_point (head m) d = Inr f"
      using m' s(3) mp by simp_all
    ultimately show ?thesis
      using ev by blast
  qed
qed

declare bit_length.simps [simp del]

lemma bit_length_le_iff: "(bit_length n \<le> k) = (n < 2 ^ k)"
proof (induction k arbitrary: n)
  case 0
  show ?case by (subst bit_length.simps) simp
next
  case (Suc k)
  show ?case
  proof (cases "n = 0")
    case True
    then show ?thesis by (subst bit_length.simps) simp
  next
    case False
    have "(bit_length n \<le> Suc k) = (bit_length (n div 2) \<le> k)"
      using False by (subst bit_length.simps) simp
    also have "\<dots> = (n div 2 < 2 ^ k)" by (rule Suc.IH)
    also have "\<dots> = (n < 2 ^ Suc k)" by auto
    finally show ?thesis .
  qed
qed

lemma bit_length_lower: "0 < bit_length n \<Longrightarrow> 2 ^ (bit_length n - 1) \<le> n"
proof -
  assume "0 < bit_length n"
  then have "\<not> bit_length n \<le> bit_length n - 1" by simp
  then have "\<not> n < 2 ^ (bit_length n - 1)"
    using bit_length_le_iff [of n "bit_length n - 1"] by blast
  then show ?thesis by simp
qed


lemma floor_half_small: "\<bar>n\<bar> < 2 ^ 53 \<Longrightarrow> floor_half n = Inr (n div 2)"
proof -
  assume "\<bar>n\<bar> < 2 ^ 53"
  then have "nat \<bar>n\<bar> < 2 ^ 53" by (simp add: nat_less_iff)
  then have "bit_length (nat \<bar>n\<bar>) \<le> 53"
    using bit_length_le_iff [of "nat \<bar>n\<bar>" 53] by blast
  then show ?thesis by (simp add: floor_half_def Let_def)
qed

lemma floor_half_error: "floor_half n = Inl e \<Longrightarrow> e = OverflowError"
  by (auto simp: floor_half_def Let_def split: if_splits)

lemma floor_half_large:
  assumes "53 < bit_length (nat \<bar>n\<bar>)"
  obtains q' where "nat \<bar>n\<bar> div 2 ^ (bit_length (nat \<bar>n\<bar>) - 53) \<le> q'"
    and "q' \<le> nat \<bar>n\<bar> div 2 ^ (bit_length (nat \<bar>n\<bar>) - 53) + 1"
    and "floor_half n =
            (if 2 ^ 1024 \<le> q' * 2 ^ (bit_length (nat \<bar>n\<bar>) - 53 - 1) then Inl OverflowError
             else Inr (sgn n * int (q' * 2 ^ (bit_length (nat \<bar>n\<bar>) - 53 - 1))))"
proof -
  define a where "a = nat \<bar>n\<bar>"
  define s where "s = bit_length a - 53"
  define q where "q = a div 2 ^ s"
  define t where "t = (2 ^ s < 2 * (a mod 2 ^ s) \<or> (2 * (a mod 2 ^ s) = 2 ^ s \<and> odd q))"
  define q' where "q' = (if t then q + 1 else q)"
  have nb: "\<not> bit_length a \<le> 53" using assms by (simp add: a_def)
  have eq: "floor_half n =
      (if 2 ^ 1024 \<le> q' * 2 ^ (s - 1) then Inl OverflowError
       else Inr (sgn n * int (q' * 2 ^ (s - 1))))"
    unfolding floor_half_def Let_def q'_def t_def q_def s_def a_def [symmetric]
    using nb by (simp only: if_False)
  have "q \<le> q'" "q' \<le> q + 1" by (simp_all add: q'_def)
  then show thesis
    using eq that [of q'] unfolding q_def s_def a_def by blast
qed

lemma rounded_bounds:
  fixes a :: nat
  assumes b: "53 < bit_length a"
  defines "s \<equiv> bit_length a - 53"
  defines "q \<equiv> a div 2 ^ s"
  shows "2 ^ 52 \<le> q" and "(q + 1) * 2 ^ (s - 1) < a"
proof -
  have s1: "1 \<le> s" using b by (simp add: s_def)
  have "2 ^ (bit_length a - 1) \<le> a" using b by (intro bit_length_lower) simp
  moreover have "bit_length a - 1 = 52 + s" using b by (simp add: s_def)
  ultimately have "2 ^ 52 * 2 ^ s \<le> a" by (simp add: power_add)
  then have "2 ^ 52 * 2 ^ s div 2 ^ s \<le> a div 2 ^ s" by (rule div_le_mono)
  then show q52: "2 ^ 52 \<le> q" by (simp add: q_def)
  have "(2::nat) ^ 52 > 1" by simp
  with q52 have "q + 1 < 2 * q" by linarith
  then have "(q + 1) * 2 ^ (s - 1) < (2 * q) * 2 ^ (s - 1)"
    by (rule mult_less_mono1) simp
  also have "\<dots> = q * 2 ^ Suc (s - 1)" by simp
  also have "Suc (s - 1) = s" using s1 by simp
  also have "q * 2 ^ s \<le> a" by (simp add: q_def)
  finally show "(q + 1) * 2 ^ (s - 1) < a" .
qed

lemma floor_half_bounds:
  assumes "1 \<le> n" "floor_half n = Inr c"
  shows "0 \<le> c \<and> c < n"
proof (cases "bit_length (nat \<bar>n\<bar>) \<le> 53")
  case True
  with assms show ?thesis by (auto simp: floor_half_def Let_def)
next
  case False
  let ?a = "nat \<bar>n\<bar>"
  let ?s = "bit_length ?a - 53"
  have b: "53 < bit_length ?a" using False by simp
  from b obtain q' where
    q': "q' \<le> ?a div 2 ^ ?s + 1"
    and eq: "floor_half n = (if 2 ^ 1024 \<le> q' * 2 ^ (?s - 1) then Inl OverflowError
             else Inr (sgn n * int (q' * 2 ^ (?s - 1))))"
    by (rule floor_half_large)
  define v where "v = q' * 2 ^ (?s - 1)"
  have "floor_half n = (if 2 ^ 1024 \<le> v then Inl OverflowError else Inr (sgn n * int v))"
    using eq by (simp only: v_def)
  with assms(2) have c: "c = sgn n * int v" by (simp split: if_splits)
  have "v \<le> (?a div 2 ^ ?s + 1) * 2 ^ (?s - 1)" unfolding v_def using q' by (rule mult_le_mono1)
  also have "\<dots> < ?a" using b by (rule rounded_bounds(2))
  finally have "int v < int ?a" by simp
  moreover have "int ?a = n" "sgn n = 1" using assms(1) by simp_all
  ultimately show ?thesis using c by simp
qed




lemma blank_map_eq:
  "floor_half w = Inr cx \<Longrightarrow> floor_half h = Inr cy \<Longrightarrow>
   blank_map w h = Inr (blank_grid w h (cx, cy))"
  by (simp add: blank_map_def blank_grid_def)

lemma blank_grid_fields [simp]:
  "width (blank_grid w h c) = w" "height (blank_grid w h c) = h"
  "head (blank_grid w h c) = c" "tail (blank_grid w h c) = c"
  "length_m (blank_grid w h c) = 1"
  by (simp_all add: blank_grid_def)

lemma in_bounds_blank_grid [simp]:
  "in_bounds (blank_grid w h c) p = (0 \<le> fst p \<and> fst p < w \<and> 0 \<le> snd p \<and> snd p < h)"
  by (simp add: in_bounds_def)

lemma wf_grid_blank_grid: "1 \<le> w \<Longrightarrow> 1 \<le> h \<Longrightarrow> wf_grid (blank_grid w h c)"
proof -
  assume "1 \<le> w" "1 \<le> h"
  then have "0 \<le> w * h" by simp
  then show ?thesis by (simp add: wf_grid_def blank_grid_def)
qed

lemma cell_blank_grid:
  assumes "1 \<le> w" "1 \<le> h" "in_bounds (blank_grid w h c) p"
  shows "cell (blank_grid w h c) p = EMPTY"
proof -
  have "0 \<le> snd p * w + fst p" "snd p * w + fst p < w * h"
    using index_lt [OF assms(3)] by simp_all
  then have "index_of (blank_grid w h c) p < nat (w * h + 1)"
    by (simp add: index_of_def nat_less_iff)
  then show ?thesis by (simp add: cell_def blank_grid_def)
qed

lemma centre_in_bounds:
  assumes "1 \<le> w" "1 \<le> h" "floor_half w = Inr cx" "floor_half h = Inr cy"
  shows "in_bounds (blank_grid w h c) (cx, cy)"
  using floor_half_bounds [OF assms(1,3)] floor_half_bounds [OF assms(2,4)] by simp

lemma Construct_overflow:
  "floor_half w = Inl e \<or> (floor_half w = Inr cx \<and> floor_half h = Inl e) \<Longrightarrow>
   Construct w h rs = Some (Inl OverflowError)"
  by (auto simp: Construct_def blank_map_def dest: floor_half_error)

lemma Construct_error:
  assumes "floor_half w = Inr cx" "floor_half h = Inr cy" "\<not> (1 \<le> w \<and> 1 \<le> h)"
  shows "Construct w h rs = Some (Inl (IndexError_point (cx, cy)))"
proof -
  have "\<not> in_bounds (blank_grid w h (cx, cy)) (cx, cy)" using assms(3) by auto
  then show ?thesis
    by (simp add: Construct_def blank_map_eq [OF assms(1,2)] setitem_out
        del: in_bounds_blank_grid)
qed

lemma Construct_eq:
  assumes "1 \<le> w" "1 \<le> h" "floor_half w = Inr cx" "floor_half h = Inr cy"
  shows "Construct w h rs = place_food (initial_map w h (cx, cy)) rs"
  using centre_in_bounds [OF assms, of "(cx, cy)"]
  by (simp add: Construct_def blank_map_eq [OF assms(3,4)] setitem_in
      wf_grid_blank_grid [OF assms(1,2)] initial_map_def del: in_bounds_blank_grid)

lemma initial_map_fields [simp]:
  "width (initial_map w h c) = w" "height (initial_map w h c) = h"
  "head (initial_map w h c) = c" "tail (initial_map w h c) = c"
  "length_m (initial_map w h c) = 1"
  by (simp_all add: initial_map_def)

lemma in_bounds_initial_map [simp]:
  "in_bounds (initial_map w h c) p = (0 \<le> fst p \<and> fst p < w \<and> 0 \<le> snd p \<and> snd p < h)"
  by (simp add: in_bounds_def)

lemma wf_grid_initial_map: "1 \<le> w \<Longrightarrow> 1 \<le> h \<Longrightarrow> wf_grid (initial_map w h c)"
  by (simp add: initial_map_def wf_grid_blank_grid)


lemma cell_initial_map:
  assumes "1 \<le> w" "1 \<le> h" "in_bounds (initial_map w h c) c" "in_bounds (initial_map w h c) p"
  shows "cell (initial_map w h c) p = (if p = c then NO_DIRECTION else EMPTY)"
proof -
  have c: "in_bounds (blank_grid w h c) c" using assms(3) by simp
  have p: "in_bounds (blank_grid w h c) p" using assms(4) by simp
  show ?thesis
    unfolding initial_map_def
    using cell_set_cell [OF wf_grid_blank_grid [OF assms(1,2)] c p]
      cell_blank_grid [OF assms(1,2) p]
    by simp
qed

lemma Construct_result:
  assumes "Construct w h rs = Some r"
  shows "(r = Inl OverflowError \<and>
            (floor_half w = Inl OverflowError \<or> floor_half h = Inl OverflowError)) \<or>
         (\<exists>c. floor_half w = Inr (fst c) \<and> floor_half h = Inr (snd c) \<and>
            ((\<not> (1 \<le> w \<and> 1 \<le> h) \<and> r = Inl (IndexError_point c)) \<or>
             (1 \<le> w \<and> 1 \<le> h \<and> in_bounds (initial_map w h c) c \<and>
              (\<exists>p rs'. r = Inr (set_cell (initial_map w h c) p FOOD, rs') \<and>
                 in_bounds (initial_map w h c) p \<and> p \<noteq> c))))"
proof (cases "floor_half w")
  case (Inl e)
  then have "floor_half w = Inl OverflowError" using floor_half_error by blast
  moreover have "r = Inl OverflowError" using assms Construct_overflow [of w e _ h rs] Inl by simp
  ultimately show ?thesis by blast
next
  case w: (Inr cx)
  show ?thesis
  proof (cases "floor_half h")
    case (Inl e)
    then have "floor_half h = Inl OverflowError" using floor_half_error by blast
    moreover have "r = Inl OverflowError"
      using assms Construct_overflow [of w e cx h rs] Inl w by simp
    ultimately show ?thesis by blast
  next
    case h: (Inr cy)
    have fs: "floor_half w = Inr (fst (cx, cy))" "floor_half h = Inr (snd (cx, cy))"
      using w h by simp_all
    show ?thesis
    proof (cases "1 \<le> w \<and> 1 \<le> h")
      case False
      then have "r = Inl (IndexError_point (cx, cy))"
        using assms Construct_error [OF w h, of rs] by simp
      with False fs show ?thesis by blast
    next
      case True
      then have w1: "1 \<le> w" and h1: "1 \<le> h" by simp_all
      let ?i = "initial_map w h (cx, cy)"
      have ibc: "in_bounds ?i (cx, cy)" using centre_in_bounds [OF w1 h1 w h, of "(cx, cy)"] by simp
      from assms have pf: "place_food ?i rs = Some r" by (simp add: Construct_eq [OF w1 h1 w h])
      from place_food_Some [OF pf wf_grid_initial_map [OF w1 h1]] w1 h1
      obtain p rs' where r: "r = Inr (set_cell ?i p FOOD, rs')"
        and ib: "in_bounds ?i p" and e: "cell ?i p = EMPTY"
        by auto
      have "p \<noteq> (cx, cy)"
        using cell_initial_map [OF w1 h1 ibc ib] e by (auto simp: cell_consts)
      with r ib ibc have "\<exists>p rs'. r = Inr (set_cell ?i p FOOD, rs') \<and> in_bounds ?i p \<and> p \<noteq> (cx, cy)"
        by blast
      with True ibc fs show ?thesis by blast
    qed
  qed
qed

lemma initial_food_inv:
  assumes w: "1 \<le> w" and h: "1 \<le> h" and ibc: "in_bounds (initial_map w h c) c"
    and ib: "in_bounds (initial_map w h c) p" and ne: "p \<noteq> c"
  shows "snake_inv (set_cell (initial_map w h c) p FOOD) [c] p"
proof -
  let ?m = "set_cell (initial_map w h c) p FOOD"
  have wf: "wf_grid (initial_map w h c)" using w h by (rule wf_grid_initial_map)
  have c: "cell ?m q = (if q = p then FOOD else if q = c then NO_DIRECTION else EMPTY)"
    if "in_bounds (initial_map w h c) q" for q
    using cell_set_cell [OF wf ib that] cell_initial_map [OF w h ibc that] by simp
  have "NO_DIRECTION \<in> dirs" by (simp add: dirs_def)
  then show ?thesis
    unfolding snake_inv_def
    using wf ib ne ibc c by (simp del: in_bounds_initial_map)
qed

lemma reachable_inv: "reachable m \<Longrightarrow> \<exists>body f. snake_inv m body f"
proof (induction rule: reachable.induct)
  case (init w h rs m rs')
  from Construct_result [OF init] obtain c p where
    "1 \<le> w" "1 \<le> h" "in_bounds (initial_map w h c) c"
    "m = set_cell (initial_map w h c) p FOOD"
    "in_bounds (initial_map w h c) p" "p \<noteq> c"
    by auto
  then show ?case using initial_food_inv by blast
next
  case (step m d rs ev m' rs')
  then obtain body f where "snake_inv m body f" by blast
  from move_cases [OF this step.hyps(2)] this show ?case by blast
qed

lemma set_points: "set (points m) = {p. in_bounds m p}"
  by (auto simp: points_def in_bounds_def)

lemma distinct_points: "distinct (points m)"
  by (simp add: points_def distinct_product)

lemma length_points: "length (points m) = nat (width m) * nat (height m)"
  by (simp add: points_def)

lemma filter_single:
  "distinct xs \<Longrightarrow> x \<in> set xs \<Longrightarrow> (\<And>y. y \<in> set xs \<Longrightarrow> P y = (y = x)) \<Longrightarrow> filter P xs = [x]"
proof (induction xs)
  case Nil
  then show ?case by simp
next
  case (Cons a xs)
  show ?case
  proof (cases "a = x")
    case True
    with Cons.prems have "\<And>y. y \<in> set xs \<Longrightarrow> \<not> P y" by auto
    then have "filter P xs = []" by (simp add: filter_empty_conv)
    with True Cons.prems show ?thesis by simp
  next
    case False
    with Cons show ?thesis by auto
  qed
qed

lemma inv_food_cells:
  assumes "snake_inv m body f"
  shows "food_cells m = [f]"
  unfolding food_cells_def
proof (rule filter_single [OF distinct_points])
  from assms have wf: "wf_grid m" and f: "in_bounds m f" "cell m f = FOOD"
    by (simp_all add: snake_inv_def)
  show "f \<in> set (points m)" using f by (simp add: set_points)
  fix y assume "y \<in> set (points m)"
  then have ib: "in_bounds m y" by (simp add: set_points)
  show "(getitem m y = Inr FOOD) = (y = f)"
    using snake_inv_food [OF assms ib] f wf ib by (auto simp: getitem_in)
qed

lemma inv_food_unique:
  assumes "snake_inv m body f"
  shows "(getitem m p = Inr FOOD) = (p = f)"
proof (cases "in_bounds m p")
  case True
  from assms have wf: "wf_grid m" and f: "in_bounds m f" "cell m f = FOOD"
    by (simp_all add: snake_inv_def)
  show ?thesis using snake_inv_food [OF assms True] f wf True by (auto simp: getitem_in)
next
  case False
  from assms have f: "in_bounds m f" by (simp add: snake_inv_def)
  with False show ?thesis by (auto simp: getitem_out)
qed

lemma inv_nonempty_cells:
  assumes "snake_inv m body f"
  shows "length (nonempty_cells m) = length body + 1"
proof -
  from assms have wf: "wf_grid m" and f: "in_bounds m f" "cell m f = FOOD"
    and dist: "distinct body"
    and body: "\<And>q. q \<in> set body \<Longrightarrow> in_bounds m q \<and> cell m q \<in> dirs"
    and rest: "\<And>q. in_bounds m q \<Longrightarrow> q \<notin> set body \<Longrightarrow> q \<noteq> f \<Longrightarrow> cell m q = EMPTY"
    by (auto simp: snake_inv_def)
  have fb: "f \<notin> set body" using body [of f] f by auto
  let ?P = "\<lambda>p. case getitem m p of Inl e \<Rightarrow> False | Inr v \<Rightarrow> v \<noteq> EMPTY"
  have "{p. ?P p} \<inter> set (points m) = insert f (set body)"
  proof (rule set_eqI)
    fix p
    show "(p \<in> {p. ?P p} \<inter> set (points m)) = (p \<in> insert f (set body))"
    proof (cases "in_bounds m p")
      case True
      then show ?thesis
        using wf f body [of p] rest [of p] by (auto simp: getitem_in set_points)
    next
      case False
      then show ?thesis using f body [of p] by (auto simp: set_points)
    qed
  qed
  then have "length (nonempty_cells m) = card (insert f (set body))"
    by (simp add: nonempty_cells_def distinct_length_filter [OF distinct_points])
  also have "\<dots> = length body + 1"
    using fb dist by (simp add: distinct_card)
  finally show ?thesis .
qed

lemma follow_chain:
  "chain (cell m) (p # ps) \<Longrightarrow> wf_grid m \<Longrightarrow> (\<And>q. q \<in> set (p # ps) \<Longrightarrow> in_bounds m q) \<Longrightarrow>
   k \<le> length ps \<Longrightarrow> follow m p k = Inr ((p # ps) ! k)"
proof (induction ps arbitrary: p k)
  case Nil
  then show ?case by simp
next
  case (Cons a ps)
  show ?case
  proof (cases k)
    case 0
    then show ?thesis by simp
  next
    case (Suc j)
    from Cons.prems have mp: "move_point p (cell m p) = Inr a" and ch: "chain (cell m) (a # ps)"
      by simp_all
    have "follow m a j = Inr ((a # ps) ! j)"
      using Cons.IH [OF ch Cons.prems(2)] Cons.prems(3,4) Suc by simp
    then show ?thesis
      using Suc mp Cons.prems(2,3) by (simp add: getitem_in)
  qed
qed

lemma inv_path_ok:
  assumes "snake_inv m body f"
  shows "path_ok m"
proof -
  from assms have wf: "wf_grid m" and ne: "body \<noteq> []" and t: "hd body = tail m"
    and h: "last body = head m" and len: "int (length body) = length_m m"
    and body: "\<And>q. q \<in> set body \<Longrightarrow> in_bounds m q \<and> cell m q \<in> dirs"
    and ch: "chain (cell m) body"
    by (auto simp: snake_inv_def)
  obtain ps where b: "body = tail m # ps" using ne t by (cases body) auto
  have n: "nat (length_m m - 1) = length ps" using len b by simp
  have fl: "follow m (tail m) k = Inr (body ! k)" if "k \<le> length ps" for k
    using follow_chain [of m "tail m" ps k] ch wf body that b by simp
  have "last body = body ! (length body - 1)" using ne by (rule last_conv_nth)
  then have "body ! length ps = head m"
    using h b by simp
  then have 1: "follow m (tail m) (nat (length_m m - 1)) = Inr (head m)"
    using fl [of "length ps"] n by simp
  have 2: "case follow m (tail m) k of Inl e \<Rightarrow> False
           | Inr p \<Rightarrow> (case getitem m p of Inl e \<Rightarrow> False | Inr v \<Rightarrow> v \<noteq> EMPTY)"
    if "k \<le> length ps" for k
  proof -
    have "k < length body" using that b by simp
    then have "body ! k \<in> set body" by (rule nth_mem)
    then show ?thesis
      using fl [OF that] body [of "body ! k"] wf by (auto simp: getitem_in)
  qed
  show ?thesis unfolding path_ok_def using 1 2 n by simp
qed

subsection \<open>Runs on the concrete states\<close>

lemmas run_defs =
  move_def move_point_def check_collision_def advance_head_def finish_move_def tail_step_def
  eat_step_def Let_def setitem_def check_point_def list_set_def random_point_def randint_def
  getitem_def list_get_def norm_index_def cell_consts

lemma replicate_4: "replicate 4 x = [x, x, x, x]"
  by (simp add: numeral_eq_Suc)

lemma replicate_3: "replicate 3 x = [x, x, x]"
  by (simp add: numeral_eq_Suc)

lemma Construct_1_3: "Construct 1 3 (sconst 0) = Some (Inr (m13, sconst 0))"
  by (simp add: Construct_def blank_map_def floor_half_small replicate_4 run_defs
      place_food.simps m13_def)

lemma Construct_1_2: "Construct 1 2 (sconst 0) = Some (Inr (m12, sconst 0))"
  by (simp add: Construct_def blank_map_def floor_half_small replicate_3 run_defs
      place_food.simps m12_def)

lemma reachable_m13: "reachable m13"
  using Construct_1_3 by (rule reachable.init)

lemma reachable_m12: "reachable m12"
  using Construct_1_2 by (rule reachable.init)

lemma move_m13_south: "move m13 SOUTH (sconst 0) = Some (Inr ([], m13_south, sconst 0))"
  by (simp add: run_defs m13_def m13_south_def)

lemma move_m13_north: "move m13 NORTH (sconst 2) = Some (Inr ([''eat''], m13_north, sconst 2))"
  by (simp add: run_defs m13_def m13_north_def place_food.simps)

lemma reachable_wf: "reachable m \<Longrightarrow> wf_grid m"
  using reachable_inv by (auto simp: snake_inv_def)

subsection \<open>Further lemmas for the claims\<close>

lemma advance_head_unconditional_eq:
  "advance_head_unconditional m d np = advance_head m d np"
  by (cases "head m")
     (auto simp: advance_head_unconditional_def advance_head_def getitem_def setitem_def
        list_get_def list_set_def check_point_def split: sum.splits option.splits if_splits)

lemma points_m13_south: "points m13_south = [(0, 0), (0, 1), (0, 2)]"
  by (simp add: points_def m13_south_def upto.simps)

lemma nonempty_m13_south: "nonempty_cells m13_south = [(0, 0), (0, 2)]"
  unfolding nonempty_cells_def points_m13_south
  by (simp add: m13_south_def getitem_def check_point_def list_get_def norm_index_def cell_consts)

lemma finds_empty_cong:
  assumes "width m' = width m" "height m' = height m"
    and "\<And>p. (getitem m' p = Inr EMPTY) = (getitem m p = Inr EMPTY)"
  shows "finds_empty m' rs n = finds_empty m rs n"
proof (induction n arbitrary: rs)
  case 0
  show ?case by simp
next
  case (Suc n)
  have "random_point m' rs = random_point m rs"
    unfolding random_point_def assms(1) assms(2) by (rule refl)
  then show ?case using Suc assms(3) by (simp split: sum.splits prod.splits)
qed


lemma getitem_Inr_in_bounds: "getitem m p = Inr v \<Longrightarrow> in_bounds m p"
  by (rule ccontr) (simp add: getitem_out)


lemma in_bounds_m12: "in_bounds m12 p = (p = (0, 0) \<or> p = (0, 1))"
  by (cases p) (auto simp: in_bounds_def m12_def)




lemma place_food_Some_finds:
  assumes "place_food m rs = Some r"
  shows "wf_grid m \<Longrightarrow> 1 \<le> width m \<Longrightarrow> 1 \<le> height m \<Longrightarrow> \<exists>n. finds_empty m rs n"
proof (induction rule: place_food.raw_induct [OF _ assms, case_names step])
  case (step place_food m rs r)
  from step.prems have wf: "wf_grid m" and w: "1 \<le> width m" and h: "1 \<le> height m"
    by blast+
  obtain p rs1 where rp: "random_point m rs = Inr (p, rs1)"
    using random_point_eq [OF w h] by blast
  have ib: "in_bounds m p" using random_point_in_bounds [OF w h rp] .
  show ?case
  proof (cases "cell m p = EMPTY")
    case True
    then have "finds_empty m rs (Suc 0)" using rp ib wf by (simp add: getitem_in)
    then show ?thesis by blast
  next
    case False
    with step.hyps rp ib wf have "place_food m rs1 = Some r"
      by (simp add: getitem_in)
    then obtain n where "finds_empty m rs1 n" using step.IH wf w h by blast
    then have "finds_empty m rs (Suc n)" using rp by simp
    then show ?thesis by blast
  qed
qed

lemma finds_empty_has_empty: "finds_empty m rs n \<Longrightarrow> \<exists>p. getitem m p = Inr EMPTY"
  by (induction n arbitrary: rs) (auto split: sum.splits prod.splits)

lemma getitem_m12: "getitem m12 p \<noteq> Inr EMPTY"
proof (cases "in_bounds m12 p")
  case True
  then have "p = (0, 0) \<or> p = (0, 1)" by (simp add: in_bounds_m12)
  then show ?thesis
    by (auto simp: m12_def getitem_def check_point_def list_get_def norm_index_def cell_consts)
next
  case False
  then show ?thesis by (simp add: getitem_out)
qed


section \<open>The claims\<close>

text \<open>
  C1.  In every reachable state exactly one cell of the grid holds \<open>FOOD\<close>: the list of food
  cells has one element, and one point only reads as \<open>FOOD\<close>.
\<close>

theorem exactly_one_food:
  "reachable m \<Longrightarrow> (\<exists>f. food_cells m = [f]) \<and> (\<exists>!p. getitem m p = Inr FOOD)"
proof -
  assume "reachable m"
  then obtain body f where inv: "snake_inv m body f" using reachable_inv by blast
  have "food_cells m = [f]" using inv by (rule inv_food_cells)
  moreover have "\<exists>!p. getitem m p = Inr FOOD" using inv_food_unique [OF inv] by auto
  ultimately show ?thesis by blast
qed

theorem exactly_one_food_witness:
  "reachable m13 \<and> (\<exists>f. food_cells m13 = [f]) \<and> (\<exists>!p. getitem m13 p = Inr FOOD)"
  using reachable_m13 exactly_one_food [OF reachable_m13] by blast

text \<open>
  C2, as amended.  On a reachable state whose cell one step from the head holds food:
  when the random source draws an empty cell within finitely many tries, \<open>move\<close> returns
  \<open>[''eat'']\<close>, the length grows by exactly one, the head stands on the cell that held the
  food and that cell stores the direction, and the one food cell of the new state is another
  cell, one that was empty; when the random source never draws an empty cell, and so
  whenever no cell is empty, \<open>move\<close> does not return.
\<close>

theorem eat_move:
  assumes r: "reachable m" and mp: "move_point (head m) d = Inr np"
    and food: "getitem m np = Inr FOOD"
  shows "(finds_empty m rs n \<longrightarrow>
            (\<exists>m' rs' f'. move m d rs = Some (Inr ([''eat''], m', rs')) \<and>
               length_m m' = length_m m + 1 \<and> head m' = np \<and> getitem m' np = Inr d \<and>
               food_cells m' = [f'] \<and> f' \<noteq> np \<and> getitem m f' = Inr EMPTY)) \<and>
         ((\<forall>k. \<not> finds_empty m rs k) \<longrightarrow> move m d rs = None) \<and>
         ((\<forall>p. getitem m p \<noteq> Inr EMPTY) \<longrightarrow> move m d rs = None)"
proof -
  from r obtain body f where inv: "snake_inv m body f" using reachable_inv by blast
  from inv have wf: "wf_grid m" by (simp add: snake_inv_def)
  have ib: "in_bounds m np" using food by (rule getitem_Inr_in_bounds)
  have c: "cell m np = FOOD" using food wf ib by (simp add: getitem_in)
  have hin: "head m \<in> set body" using inv by (rule snake_inv_head)
  have ibh: "in_bounds m (head m)" and ch: "cell m (head m) \<in> dirs"
    using snake_inv_body [OF inv hin] by simp_all
  have nph: "np \<noteq> head m" using c ch by auto
  have d: "d \<in> dirs" using mp by (rule move_point_dirs)
  let ?m1 = "(set_cell m (head m) d)\<lparr>head := np\<rparr>"
  have wf1: "wf_grid ?m1" using wf by simp
  have w: "1 \<le> width ?m1" "1 \<le> height ?m1" using ib by (auto simp: in_bounds_def)
  have same: "(getitem ?m1 p = Inr EMPTY) = (getitem m p = Inr EMPTY)" for p
  proof (cases "in_bounds m p")
    case True
    then show ?thesis
      using wf ibh d ch by (auto simp: getitem_in cell_set_cell)
  next
    case False
    then show ?thesis by (simp add: getitem_out)
  qed
  have fe1: "finds_empty ?m1 rs k = finds_empty m rs k" for k
    by (rule finds_empty_cong) (simp_all add: same)
  note me = move_eat [OF wf ibh mp ib c nph, of rs]
  have 1: "\<exists>m' rs' f'. move m d rs = Some (Inr ([''eat''], m', rs')) \<and>
               length_m m' = length_m m + 1 \<and> head m' = np \<and> getitem m' np = Inr d \<and>
               food_cells m' = [f'] \<and> f' \<noteq> np \<and> getitem m f' = Inr EMPTY"
    if fe: "finds_empty m rs n"
  proof -
    have "finds_empty ?m1 rs n" using fe by (simp add: fe1)
    from place_food_finds [OF wf1 w this] obtain res where pf: "place_food ?m1 rs = Some res"
      by blast
    from place_food_Some [OF pf wf1 w] obtain p rs1 where
      res: "res = Inr (set_cell ?m1 p FOOD, rs1)" and ibp: "in_bounds m p"
      and pe: "cell ?m1 p = EMPTY"
      by auto
    have mv: "move m d rs = Some (Inr ([''eat''], eat_state m d np p, rs1))"
      using me pf res by (simp add: eat_state_def)
    note s = inv_eat [OF inv mp ib c ibp pe]
    have "getitem ?m1 p = Inr EMPTY" using wf1 ibp pe by (simp add: getitem_in)
    then have pm: "getitem m p = Inr EMPTY" by (simp add: same)
    have "cell (eat_state m d np p) np = d"
      using cell_eat_state [of m p np np d] wf ibh ibp ib by simp
    then have g: "getitem (eat_state m d np p) np = Inr d"
      using wf ib by (simp add: getitem_in)
    have fc: "food_cells (eat_state m d np p) = [p]" using s(1) by (rule inv_food_cells)
    have "move m d rs = Some (Inr ([''eat''], eat_state m d np p, rs1)) \<and>
        length_m (eat_state m d np p) = length_m m + 1 \<and> head (eat_state m d np p) = np \<and>
        getitem (eat_state m d np p) np = Inr d \<and>
        food_cells (eat_state m d np p) = [p] \<and> p \<noteq> np \<and> getitem m p = Inr EMPTY"
      using mv g fc s(2) pm by simp
    then show ?thesis by blast
  qed
  have 2: "move m d rs = None" if never: "\<forall>k. \<not> finds_empty m rs k"
  proof (cases "place_food ?m1 rs")
    case None
    then show ?thesis using me by simp
  next
    case (Some res)
    from place_food_Some_finds [OF Some wf1 w] obtain k where "finds_empty ?m1 rs k" by blast
    then have "finds_empty m rs k" by (simp add: fe1)
    with never show ?thesis by blast
  qed
  have 3: "move m d rs = None" if full: "\<forall>p. getitem m p \<noteq> Inr EMPTY"
  proof -
    have "\<forall>k. \<not> finds_empty m rs k" using full finds_empty_has_empty by blast
    then show ?thesis by (rule 2)
  qed
  show ?thesis using 1 2 3 by blast
qed

theorem eat_move_witness:
  "reachable m13 \<and> move_point (head m13) NORTH = Inr (0, 0) \<and> getitem m13 (0, 0) = Inr FOOD \<and>
   finds_empty m13 (sconst 2) 1 \<and>
   (\<exists>m' rs' f'. move m13 NORTH (sconst 2) = Some (Inr ([''eat''], m', rs')) \<and>
      length_m m' = length_m m13 + 1 \<and> head m' = (0, 0) \<and> getitem m' (0, 0) = Inr NORTH \<and>
      food_cells m' = [f'] \<and> f' \<noteq> (0, 0) \<and> getitem m13 f' = Inr EMPTY) \<and>
   reachable m12 \<and> move_point (head m12) NORTH = Inr (0, 0) \<and> getitem m12 (0, 0) = Inr FOOD \<and>
   (\<forall>p. getitem m12 p \<noteq> Inr EMPTY) \<and> (\<forall>k. \<not> finds_empty m12 (sconst 0) k) \<and>
   move m12 NORTH (sconst 0) = None"
proof -
  have 1: "move_point (head m13) NORTH = Inr (0, 0)"
    by (simp add: m13_def move_point_def cell_consts)
  have 2: "getitem m13 (0, 0) = Inr FOOD"
    by (simp add: m13_def getitem_def check_point_def list_get_def norm_index_def)
  have 3: "finds_empty m13 (sconst 2) (Suc 0)"
    by (simp add: m13_def random_point_def randint_def getitem_def check_point_def list_get_def
        norm_index_def cell_consts)
  have 4: "move_point (head m12) NORTH = Inr (0, 0)"
    by (simp add: m12_def move_point_def cell_consts)
  have 5: "getitem m12 (0, 0) = Inr FOOD"
    by (simp add: m12_def getitem_def check_point_def list_get_def norm_index_def)
  have 6: "\<forall>p. getitem m12 p \<noteq> Inr EMPTY" using getitem_m12 by blast
  have 7: "\<forall>k. \<not> finds_empty m12 (sconst 0) k" using 6 finds_empty_has_empty by blast
  note a = eat_move [OF reachable_m13 1 2, of "sconst 2" "Suc 0"]
  note b = eat_move [OF reachable_m12 4 5, of "sconst 0" 0]
  from b 6 have 8: "move m12 NORTH (sconst 0) = None" by blast
  from a 3 reachable_m13 1 2 reachable_m12 4 5 6 7 8 show ?thesis by simp
qed

theorem eat_move_counterexample:
  "reachable m12 \<and> move_point (head m12) NORTH = Inr (0, 0) \<and> getitem m12 (0, 0) = Inr FOOD \<and>
   (\<forall>rs. move m12 NORTH rs = None)"
proof -
  let ?m1 = "(set_cell m12 (head m12) NORTH)\<lparr>head := (0, 0)\<rparr>"
  have wf: "wf_grid m12" by (simp add: wf_grid_def m12_def)
  have 1: "move_point (head m12) NORTH = Inr (0, 0)"
    by (simp add: m12_def move_point_def cell_consts)
  have 2: "getitem m12 (0, 0) = Inr FOOD"
    by (simp add: m12_def getitem_def check_point_def list_get_def norm_index_def)
  have ibh: "in_bounds m12 (head m12)" by (simp add: in_bounds_m12) (simp add: m12_def)
  have ib: "in_bounds m12 (0, 0)" by (simp add: in_bounds_m12)
  have c: "cell m12 (0, 0) = FOOD" by (simp add: cell_def index_of_def m12_def)
  have nph: "(0, 0) \<noteq> head m12" by (simp add: m12_def)
  have full: "\<forall>p. in_bounds ?m1 p \<longrightarrow> cell ?m1 p \<noteq> EMPTY"
    by (auto simp: in_bounds_m12) (simp_all add: cell_def index_of_def set_cell_def m12_def cell_consts)
  have "place_food ?m1 rs = None" for rs
    by (rule place_food_full [OF _ _ _ full]) (simp_all add: wf, simp_all add: m12_def)
  then have "move m12 NORTH rs = None" for rs
    using move_eat [OF wf ibh 1 ib c nph, of rs] by simp
  then show ?thesis using reachable_m12 1 2 by simp
qed

text \<open>
  C3.  On a reachable state, a move whose new head lies outside the grid returns \<open>[''die'']\<close>
  and the state it was called on; and whenever \<open>move\<close> returns a \<open>''die''\<close> event, that
  event is all it returns and the state is the one it was called on.
\<close>

theorem wall_move_dies:
  "reachable m \<Longrightarrow>
     (move_point (head m) d = Inr np \<longrightarrow> \<not> in_bounds m np \<longrightarrow>
        move m d rs = Some (Inr ([''die''], m, rs))) \<and>
     (move m d rs = Some (Inr (ev, m', rs')) \<longrightarrow> ''die'' \<in> set ev \<longrightarrow>
        ev = [''die''] \<and> m' = m)"
proof -
  assume r: "reachable m"
  then obtain body f where inv: "snake_inv m body f" using reachable_inv by blast
  have wf: "wf_grid m" using r by (rule reachable_wf)
  have 1: "move m d rs = Some (Inr ([''die''], m, rs))"
    if "move_point (head m) d = Inr np" "\<not> in_bounds m np"
    using move_die [OF wf that(1)] that(2) by simp
  have 2: "ev = [''die''] \<and> m' = m"
    if "move m d rs = Some (Inr (ev, m', rs'))" "''die'' \<in> set ev"
    using move_cases [OF inv that(1)] that(2) by auto
  show ?thesis using 1 2 by blast
qed

theorem wall_move_dies_witness:
  "reachable m13 \<and> move_point (head m13) EAST = Inr (1, 1) \<and> \<not> in_bounds m13 (1, 1) \<and>
   move m13 EAST (sconst 0) = Some (Inr ([''die''], m13, sconst 0)) \<and> ''die'' \<in> set [''die'']"
proof -
  have 1: "move_point (head m13) EAST = Inr (1, 1)"
    by (simp add: m13_def move_point_def cell_consts)
  have 2: "\<not> in_bounds m13 (1, 1)" by (simp add: m13_def in_bounds_def)
  from wall_move_dies [OF reachable_m13, of EAST "(1, 1)" "sconst 0"] 1 2
  have "move m13 EAST (sconst 0) = Some (Inr ([''die''], m13, sconst 0))" by blast
  with reachable_m13 1 2 show ?thesis by simp
qed

text \<open>
  C4.  Across a call of \<open>move\<close> on a reachable state the length never decreases; it grows by
  exactly one when the events contain \<open>''eat''\<close> and is unchanged when they do not.
\<close>

theorem length_grows_on_eat:
  "reachable m \<Longrightarrow> move m d rs = Some (Inr (ev, m', rs')) \<Longrightarrow>
     length_m m \<le> length_m m' \<and>
     (''eat'' \<in> set ev \<longrightarrow> length_m m' = length_m m + 1) \<and>
     (''eat'' \<notin> set ev \<longrightarrow> length_m m' = length_m m)"
proof -
  assume r: "reachable m" and mv: "move m d rs = Some (Inr (ev, m', rs'))"
  from r obtain body f where inv: "snake_inv m body f" using reachable_inv by blast
  from move_cases [OF inv mv] show ?thesis by auto
qed

theorem length_grows_on_eat_witness:
  "reachable m13 \<and> move m13 NORTH (sconst 2) = Some (Inr ([''eat''], m13_north, sconst 2)) \<and>
   length_m m13 \<le> length_m m13_north \<and> length_m m13_north = length_m m13 + 1"
  using reachable_m13 move_m13_north length_grows_on_eat [OF reachable_m13 move_m13_north]
  by simp

text \<open>
  C5, as amended.  After a call of \<open>move\<close> on a reachable state that does not return
  \<open>[''die'']\<close>, the number of cells of the grid that are not empty is the length plus one: the
  cells of the snake and the food cell.
\<close>

theorem nonempty_count:
  "reachable m \<Longrightarrow> move m d rs = Some (Inr (ev, m', rs')) \<Longrightarrow> ev \<noteq> [''die''] \<Longrightarrow>
     int (length (nonempty_cells m')) = length_m m' + 1"
proof -
  assume r: "reachable m" and mv: "move m d rs = Some (Inr (ev, m', rs'))"
  have "reachable m'" using r mv by (rule reachable.step)
  then obtain body f where inv: "snake_inv m' body f" using reachable_inv by blast
  then have "int (length body) = length_m m'" by (simp add: snake_inv_def)
  then show ?thesis using inv_nonempty_cells [OF inv] by simp
qed

theorem nonempty_count_witness:
  "reachable m13 \<and> move m13 SOUTH (sconst 0) = Some (Inr ([], m13_south, sconst 0)) \<and>
   [] \<noteq> [''die''] \<and> int (length (nonempty_cells m13_south)) = length_m m13_south + 1"
  using reachable_m13 move_m13_south nonempty_count [OF reachable_m13 move_m13_south]
  by simp

theorem nonempty_count_counterexample:
  "reachable m13 \<and> move m13 SOUTH (sconst 0) = Some (Inr ([], m13_south, sconst 0)) \<and>
   [] \<noteq> [''die''] \<and> length (nonempty_cells m13_south) = 2 \<and> length_m m13_south = 1"
  using reachable_m13 move_m13_south by (simp add: nonempty_m13_south) (simp add: m13_south_def)

text \<open>
  C6.  In every reachable state, \<open>length - 1\<close> steps from the tail, each by the direction
  stored in the cell stood on, reach the head, and every cell on the way (the tail and the
  head included) is not empty; the state a move returns has the property again.
\<close>

theorem tail_path_reaches_head:
  "reachable m \<Longrightarrow>
     path_ok m \<and> (move m d rs = Some (Inr (ev, m', rs')) \<longrightarrow> path_ok m')"
proof -
  assume r: "reachable m"
  then obtain body f where inv: "snake_inv m body f" using reachable_inv by blast
  have 1: "path_ok m" using inv by (rule inv_path_ok)
  have 2: "path_ok m'" if mv: "move m d rs = Some (Inr (ev, m', rs'))"
  proof -
    have "reachable m'" using r mv by (rule reachable.step)
    then obtain body' f' where "snake_inv m' body' f'" using reachable_inv by blast
    then show ?thesis by (rule inv_path_ok)
  qed
  show ?thesis using 1 2 by blast
qed

theorem tail_path_reaches_head_witness:
  "reachable m13 \<and> path_ok m13 \<and>
   move m13 NORTH (sconst 2) = Some (Inr ([''eat''], m13_north, sconst 2)) \<and> path_ok m13_north"
  using reachable_m13 move_m13_north
    tail_path_reaches_head [OF reachable_m13, of NORTH "sconst 2" "[''eat'']" m13_north "sconst 2"]
  by simp







text \<open>
  C9.  The conditional write of lines 79 and 80 changes nothing: \<open>move_unconditional\<close>, which
  leaves it out, returns the same events, state and random source as \<open>move\<close>, raises the
  same exception and fails to return on the same calls, for every state and argument.
\<close>

theorem conditional_write_redundant: "move_unconditional m d rs = move m d rs"
  unfolding move_unconditional_def move_def advance_head_unconditional_eq by (rule refl)

theorem conditional_write_redundant_witness:
  "reachable m13 \<and> move_unconditional m13 NORTH (sconst 2) = move m13 NORTH (sconst 2) \<and>
   move_unconditional m13 NORTH (sconst 2) = Some (Inr ([''eat''], m13_north, sconst 2))"
  using reachable_m13 move_m13_north conditional_write_redundant [of m13 NORTH "sconst 2"]
  by simp

text \<open>
  C10.  On a reachable state \<open>move\<close> with \<open>NO_DIRECTION\<close> returns \<open>[''die'']\<close> and the state
  it was called on: the new head is the head, whose cell is neither empty nor food.
\<close>

theorem no_direction_dies:
  "reachable m \<Longrightarrow>
     move m NO_DIRECTION rs = Some (Inr ([''die''], m, rs)) \<and>
     move_point (head m) NO_DIRECTION = Inr (head m) \<and>
     (\<exists>v. getitem m (head m) = Inr v \<and> v \<noteq> EMPTY \<and> v \<noteq> FOOD) \<and>
     check_collision m (head m) = Inr True"
proof -
  assume r: "reachable m"
  then obtain body f where inv: "snake_inv m body f" using reachable_inv by blast
  have wf: "wf_grid m" using r by (rule reachable_wf)
  have h: "in_bounds m (head m)" "cell m (head m) \<in> dirs"
    using snake_inv_body [OF inv snake_inv_head [OF inv]] by simp_all
  then have ne: "cell m (head m) \<noteq> EMPTY" "cell m (head m) \<noteq> FOOD" by auto
  have mp: "move_point (head m) NO_DIRECTION = Inr (head m)" by (rule move_point_NO_DIRECTION)
  have "move m NO_DIRECTION rs = Some (Inr ([''die''], m, rs))"
    using move_die [OF wf mp] ne by simp
  moreover have "getitem m (head m) = Inr (cell m (head m))" using wf h by (simp add: getitem_in)
  moreover have "check_collision m (head m) = Inr True"
    using wf h ne by (simp add: check_collision_eq)
  ultimately show ?thesis using mp ne by simp
qed

theorem no_direction_dies_witness:
  "reachable m13 \<and> move m13 NO_DIRECTION (sconst 0) = Some (Inr ([''die''], m13, sconst 0))"
  using reachable_m13 no_direction_dies [OF reachable_m13, of "sconst 0"] by simp

end
